theory Spec2Isabelle
  imports Main "HOL-Library.AList" "HOL-Library.Char_ord" "HOL-Library.List_Lexorder"
begin

section \<open>Data model of \<^verbatim>\<open>LRU_Cache.py\<close>\<close>

text \<open>
  Python objects that occur as keys and values of the cache: the module-level object
  \<^verbatim>\<open>_SENTINEL\<close>, \<^verbatim>\<open>None\<close>, or any other object. Equality of \<open>Obj a\<close> and \<open>Obj b\<close> is
  Python's \<^verbatim>\<open>==\<close> on the underlying objects, which is what \<^verbatim>\<open>dict\<close> uses for its keys.
\<close>

datatype 'a pyobj = SENTINEL | PyNone | Obj 'a

text \<open>
  The exceptions the code can raise: \<^verbatim>\<open>ValueError\<close> from \<^verbatim>\<open>lru_cache_impl\<close>,
  \<^verbatim>\<open>AttributeError\<close> when an attribute of \<^verbatim>\<open>None\<close> is read or written,
  \<^verbatim>\<open>KeyError\<close> from \<^verbatim>\<open>del self._data[...]\<close>; a call of the wrapper raises one of
  these or whatever the wrapped function raises.
\<close>

datatype pyerr = ValueError string | AttributeError | KeyError

datatype 'e raised = Builtin pyerr | Raised 'e

text \<open>
  Nodes live in a store: a node reference is an address, the index of the node in the
  list \<open>heap\<close>. \<^verbatim>\<open>_Node(key=k, val=v)\<close> allocates the next free address; Python never
  frees a node that is still referenced, and the model never frees at all.
\<close>

type_synonym addr = nat

record ('k, 'v) Node =
  key :: "'k pyobj"
  val :: "'v pyobj"
  prev :: "addr option"
  "next" :: "addr option"

record ('k, 'v) LRUCache =
  heap :: "('k, 'v) Node list"
  data :: "('k pyobj \<times> addr) list"
  head :: addr
  tail :: addr
  capacity :: int

text \<open>Field assignments \<^verbatim>\<open>a.next = v\<close> and \<^verbatim>\<open>a.prev = v\<close> on the node at address \<open>a\<close>.\<close>

definition set_next :: "('k, 'v) Node list \<Rightarrow> addr \<Rightarrow> addr option \<Rightarrow> ('k, 'v) Node list" where
  "set_next h a v = h[a := (h ! a)\<lparr>next := v\<rparr>]"

definition set_prev :: "('k, 'v) Node list \<Rightarrow> addr \<Rightarrow> addr option \<Rightarrow> ('k, 'v) Node list" where
  "set_prev h a v = h[a := (h ! a)\<lparr>prev := v\<rparr>]"

section \<open>The cache\<close>

text \<open>
  \<^verbatim>\<open>LRUCache.__init__\<close>: two sentinel nodes, \<^verbatim>\<open>head.prev = tail\<close> and
  \<^verbatim>\<open>tail.next = head\<close>. There is no check of \<open>capacity\<close>.
\<close>

definition new_cache :: "int \<Rightarrow> ('k, 'v) LRUCache" where
  "new_cache cap =
     \<lparr>heap = [\<lparr>key = SENTINEL, val = SENTINEL, prev = Some 1, next = None\<rparr>,
              \<lparr>key = SENTINEL, val = SENTINEL, prev = None, next = Some 0\<rparr>],
      data = [], head = 0, tail = 1, capacity = cap\<rparr>"

text \<open>
  The outcome of the call \<^verbatim>\<open>LRUCache(capacity)\<close>: \<^verbatim>\<open>__init__\<close> has no \<^verbatim>\<open>raise\<close> and
  reads no attribute of \<^verbatim>\<open>None\<close>, so it returns the new cache for every \<open>capacity\<close>.
\<close>

definition LRUCache_init :: "int \<Rightarrow> pyerr + ('k, 'v) LRUCache" where
  "LRUCache_init cap = Inr (new_cache cap)"

text \<open>\<^verbatim>\<open>__len__\<close>\<close>

definition len :: "('k, 'v) LRUCache \<Rightarrow> int" where
  "len c = int (length (data c))"

text \<open>
  \<^verbatim>\<open>_remove(node)\<close>: the neighbours are linked to each other when they are not
  \<^verbatim>\<open>None\<close>; the fields of \<open>node\<close> itself are left as they are.
\<close>

definition remove :: "('k, 'v) LRUCache \<Rightarrow> addr \<Rightarrow> ('k, 'v) LRUCache" where
  "remove c node =
     (let h = heap c;
          p = prev (h ! node);
          n = next (h ! node);
          h1 = (case p of None \<Rightarrow> h | Some pa \<Rightarrow> set_next h pa n);
          h2 = (case n of None \<Rightarrow> h1 | Some na \<Rightarrow> set_prev h1 na p)
      in c\<lparr>heap := h2\<rparr>)"

text \<open>
  \<^verbatim>\<open>_move_front(node)\<close>. \<^verbatim>\<open>prev_head.next = node\<close> raises \<^verbatim>\<open>AttributeError\<close>
  when \<^verbatim>\<open>self._head.prev\<close> is \<^verbatim>\<open>None\<close>; the effect of \<^verbatim>\<open>_remove\<close> stays.
\<close>

definition move_front :: "('k, 'v) LRUCache \<Rightarrow> addr \<Rightarrow> (pyerr + unit) \<times> ('k, 'v) LRUCache" where
  "move_front c node =
     (let c1 = remove c node in
      case prev (heap c1 ! head c1) of
        None \<Rightarrow> (Inl AttributeError, c1)
      | Some prev_head \<Rightarrow>
          (let h1 = set_next (heap c1) prev_head (Some node);
               h2 = set_prev h1 node (Some prev_head);
               h3 = set_next h2 node (Some (head c1));
               h4 = set_prev h3 (head c1) (Some node)
           in (Inr (), c1\<lparr>heap := h4\<rparr>)))"

text \<open>
  \<^verbatim>\<open>_pop()\<close>: \<^verbatim>\<open>self._remove(self._tail.next)\<close>; reading \<^verbatim>\<open>node.prev\<close> of
  \<^verbatim>\<open>None\<close> raises \<^verbatim>\<open>AttributeError\<close>.
\<close>

definition pop :: "('k, 'v) LRUCache \<Rightarrow> (pyerr + addr) \<times> ('k, 'v) LRUCache" where
  "pop c =
     (case next (heap c ! tail c) of
        None \<Rightarrow> (Inl AttributeError, c)
      | Some node \<Rightarrow> (Inr node, remove c node))"

text \<open>\<^verbatim>\<open>get(k, default)\<close> (the default is \<open>dflt\<close>); the call \<^verbatim>\<open>get(k)\<close> is \<open>get c k PyNone\<close>.\<close>

definition get :: "('k, 'v) LRUCache \<Rightarrow> 'k pyobj \<Rightarrow> 'v pyobj \<Rightarrow> (pyerr + 'v pyobj) \<times> ('k, 'v) LRUCache" where
  "get c k dflt =
     (case map_of (data c) k of
        None \<Rightarrow> (Inr dflt, c)
      | Some node \<Rightarrow>
          (case move_front c node of
             (Inl e, c1) \<Rightarrow> (Inl e, c1)
           | (Inr _, c1) \<Rightarrow> (Inr (val (heap c1 ! node)), c1)))"

text \<open>
  \<^verbatim>\<open>put(k, v)\<close>. On a key that is present the node is moved and its value returned;
  \<open>v\<close> is not stored. Otherwise a node is allocated, entered in the index and moved to
  the front, and when the index is larger than \<open>capacity\<close> the node after \<open>tail\<close> is
  popped and its key deleted from the index (\<^verbatim>\<open>KeyError\<close> when it is not there). The
  method then returns \<^verbatim>\<open>None\<close>.
\<close>

definition put :: "('k, 'v) LRUCache \<Rightarrow> 'k pyobj \<Rightarrow> 'v pyobj \<Rightarrow> (pyerr + 'v pyobj) \<times> ('k, 'v) LRUCache" where
  "put c k v =
     (case map_of (data c) k of
        Some node \<Rightarrow>
          (case move_front c node of
             (Inl e, c1) \<Rightarrow> (Inl e, c1)
           | (Inr _, c1) \<Rightarrow> (Inr (val (heap c1 ! node)), c1))
      | None \<Rightarrow>
          (let node = length (heap c);
               c1 = c\<lparr>heap := heap c @ [\<lparr>key = k, val = v, prev = None, next = None\<rparr>],
                      data := AList.update k node (data c)\<rparr>
           in case move_front c1 node of
                (Inl e, c2) \<Rightarrow> (Inl e, c2)
              | (Inr _, c2) \<Rightarrow>
                  if len c2 > capacity c2 then
                    (case pop c2 of
                       (Inl e, c3) \<Rightarrow> (Inl e, c3)
                     | (Inr lru, c3) \<Rightarrow>
                         (let lk = key (heap c3 ! lru) in
                          if lk \<in> fst ` set (data c3)
                          then (Inr PyNone, c3\<lparr>data := AList.delete lk (data c3)\<rparr>)
                          else (Inl KeyError, c3)))
                  else (Inr PyNone, c2)))"

section \<open>Observing the list and running operations\<close>

text \<open>
  The nodes strictly between \<open>tail\<close> and \<open>head\<close>, read by following \<open>next\<close> from
  \<^verbatim>\<open>tail.next\<close> until \<open>head\<close> (here \<open>stop\<close>) is reached: the least recently used node
  first. The result is \<open>None\<close> when the walk meets \<^verbatim>\<open>None\<close> or does not reach \<open>head\<close>
  within \<open>fuel\<close> steps; \<open>live_nodes\<close> allows one step for every allocated node.
\<close>

fun walk :: "('k, 'v) Node list \<Rightarrow> addr \<Rightarrow> nat \<Rightarrow> addr option \<Rightarrow> addr list option" where
  "walk h stop 0 cur = None"
| "walk h stop (Suc fuel) None = None"
| "walk h stop (Suc fuel) (Some a) =
     (if a = stop then Some [] else map_option ((#) a) (walk h stop fuel (next (h ! a))))"

text \<open>The same walk along \<open>prev\<close>, from \<^verbatim>\<open>head.prev\<close> down to \<open>tail\<close>.\<close>

fun walk_back :: "('k, 'v) Node list \<Rightarrow> addr \<Rightarrow> nat \<Rightarrow> addr option \<Rightarrow> addr list option" where
  "walk_back h stop 0 cur = None"
| "walk_back h stop (Suc fuel) None = None"
| "walk_back h stop (Suc fuel) (Some a) =
     (if a = stop then Some [] else map_option ((#) a) (walk_back h stop fuel (prev (h ! a))))"

definition live_nodes :: "('k, 'v) LRUCache \<Rightarrow> addr list option" where
  "live_nodes c = walk (heap c) (head c) (length (heap c)) (next (heap c ! tail c))"

definition live_nodes_back :: "('k, 'v) LRUCache \<Rightarrow> addr list option" where
  "live_nodes_back c = walk_back (heap c) (tail c) (length (heap c)) (prev (heap c ! head c))"

text \<open>The entries and the keys of the list, least recently used first.\<close>

definition entries :: "('k, 'v) LRUCache \<Rightarrow> ('k pyobj \<times> 'v pyobj) list option" where
  "entries c = map_option (map (\<lambda>a. (key (heap c ! a), val (heap c ! a)))) (live_nodes c)"

definition lru_keys :: "('k, 'v) LRUCache \<Rightarrow> 'k pyobj list option" where
  "lru_keys c = map_option (map (\<lambda>a. key (heap c ! a))) (live_nodes c)"

text \<open>The keys of the index \<^verbatim>\<open>_data\<close>.\<close>

definition index_keys :: "('k, 'v) LRUCache \<Rightarrow> 'k pyobj set" where
  "index_keys c = fst ` set (data c)"

text \<open>
  A caller's operations on one cache: \<^verbatim>\<open>get(k)\<close> and \<^verbatim>\<open>put(k, v)\<close>. A run stops at the
  first exception.
\<close>

datatype ('k, 'v) op = Get "'k pyobj" | Put "'k pyobj" "'v pyobj"

fun step :: "('k, 'v) LRUCache \<Rightarrow> ('k, 'v) op \<Rightarrow> (pyerr + 'v pyobj) \<times> ('k, 'v) LRUCache" where
  "step c (Get k) = get c k PyNone"
| "step c (Put k v) = put c k v"

fun run :: "('k, 'v) LRUCache \<Rightarrow> ('k, 'v) op list \<Rightarrow> pyerr + ('k, 'v) LRUCache" where
  "run c [] = Inr c"
| "run c (x # xs) = (case step c x of (Inl e, c1) \<Rightarrow> Inl e | (Inr r, c1) \<Rightarrow> run c1 xs)"

text \<open>
  What an operation accesses: \<^verbatim>\<open>put\<close> accesses its key, \<^verbatim>\<open>get\<close> accesses its key when
  the key is in the index (a hit). \<open>access_log\<close> lists, for a run from \<open>c\<close>, what each
  operation accessed, in the order of the run.
\<close>

fun accessed :: "('k, 'v) LRUCache \<Rightarrow> ('k, 'v) op \<Rightarrow> 'k pyobj option" where
  "accessed c (Get k) = (if k \<in> index_keys c then Some k else None)"
| "accessed c (Put k v) = Some k"

fun access_log :: "('k, 'v) LRUCache \<Rightarrow> ('k, 'v) op list \<Rightarrow> 'k pyobj option list" where
  "access_log c [] = []"
| "access_log c (x # xs) =
     accessed c x #
     (case step c x of
        (Inl e, c1) \<Rightarrow> []
      | (Inr r, c1) \<Rightarrow> access_log c1 xs)"

text \<open>
  The time of the last access to \<open>k\<close> in a log: the position, counted from 1, of the
  last entry \<open>Some k\<close>, and 0 when \<open>k\<close> was never accessed.
\<close>

fun last_access :: "'a option list \<Rightarrow> 'a \<Rightarrow> nat" where
  "last_access [] k = 0"
| "last_access (e # log) k =
     (let r = last_access log k in
      if r \<noteq> 0 then Suc r else if e = Some k then 1 else 0)"

section \<open>The key normalizer and the memoizing wrapper\<close>

text \<open>
  An argument object is described by its runtime type \<^verbatim>\<open>type(a)\<close> and by its value:
  two argument objects are equal for Python's \<^verbatim>\<open>==\<close> (and have the same hash) exactly
  when their values are equal, whatever their types, as \<^verbatim>\<open>1 == 1.0\<close>. Only hashable
  arguments are modelled. Type objects are equal when they are the same type.
\<close>

datatype ('t, 'v) pyarg = PyArg (type_of: 't) (value_of: 'v)

text \<open>
  The tuples built by \<^verbatim>\<open>_normalize_key\<close>: \<^verbatim>\<open>(args, items)\<close>, and
  \<^verbatim>\<open>(args, items, types of args, types of the item values)\<close> when \<open>typed\<close>.
\<close>

datatype ('a, 't) ckey =
  Key2 "'a list" "(string \<times> 'a) list"
| Key4 "'a list" "(string \<times> 'a) list" "'t list" "'t list"

text \<open>
  \<^verbatim>\<open>_normalize_key(args, kwargs, typed)\<close>. \<open>kwargs\<close> is a \<^verbatim>\<open>dict\<close>, given as the list of
  its items in the order of the call; its names are distinct, so \<^verbatim>\<open>sorted\<close> orders
  the items by name alone and never compares two values. Strings are ordered as Python
  orders them, character by character.
\<close>

definition normalize_key ::
  "('t, 'v) pyarg list \<Rightarrow> (string \<times> ('t, 'v) pyarg) list \<Rightarrow> bool \<Rightarrow> (('t, 'v) pyarg, 't) ckey" where
  "normalize_key args kwargs typed =
     (let items = (if kwargs \<noteq> [] then sort_key fst kwargs else []);
          k = Key2 args items
      in if typed
         then Key4 args items (map type_of args) (map (\<lambda>(n, v). type_of v) items)
         else k)"

text \<open>
  The key as the \<^verbatim>\<open>dict\<close> of the cache identifies it: tuples are equal when their
  components are, argument objects when their values are, type objects when they are
  the same.
\<close>

fun dict_key :: "(('t, 'v) pyarg, 't) ckey \<Rightarrow> ('v, 't) ckey" where
  "dict_key (Key2 a i) = Key2 (map value_of a) (map (\<lambda>(n, x). (n, value_of x)) i)"
| "dict_key (Key4 a i ta ti) = Key4 (map value_of a) (map (\<lambda>(n, x). (n, value_of x)) i) ta ti"

text \<open>\<^verbatim>\<open>CacheInfo\<close>\<close>

record CacheInfo =
  hits :: int
  misses :: int
  max_size :: int
  currsize :: int

text \<open>
  The variables a \<^verbatim>\<open>wrapper\<close> closes over: \<open>func\<close>, \<open>typed\<close>, \<open>max_size\<close>, \<open>cache\<close>,
  \<open>hits\<close> and \<open>misses\<close>. The wrapped function returns a value or raises (\<open>Inl\<close>).
  \<open>w_calls\<close> is not in the code: it records the arguments of every invocation of
  \<open>func\<close>, in order.
\<close>

record ('t, 'v, 'e, 'r) closure =
  w_func :: "('t, 'v) pyarg list \<Rightarrow> (string \<times> ('t, 'v) pyarg) list \<Rightarrow> 'e + 'r pyobj"
  w_typed :: bool
  w_max_size :: int
  w_cache :: "(('v, 't) ckey, 'r) LRUCache"
  w_hits :: int
  w_misses :: int
  w_calls :: "(('t, 'v) pyarg list \<times> (string \<times> ('t, 'v) pyarg) list) list"

text \<open>
  \<^verbatim>\<open>lru_cache_impl(max_size, typed)(func)\<close>: the check of \<open>max_size\<close>, then the
  decorator, which builds the cache and the counters.
\<close>

definition lru_cache_impl ::
  "int \<Rightarrow> bool \<Rightarrow> (('t, 'v) pyarg list \<Rightarrow> (string \<times> ('t, 'v) pyarg) list \<Rightarrow> 'e + 'r pyobj)
   \<Rightarrow> pyerr + ('t, 'v, 'e, 'r) closure" where
  "lru_cache_impl maxsize typed func =
     (if maxsize \<le> 0 then Inl (ValueError ''max_size must be > 0'')
      else
        (case LRUCache_init maxsize of
           Inl e \<Rightarrow> Inl e
         | Inr cache \<Rightarrow>
             Inr \<lparr>w_func = func, w_typed = typed, w_max_size = maxsize, w_cache = cache,
                  w_hits = 0, w_misses = 0, w_calls = []\<rparr>))"

text \<open>
  \<^verbatim>\<open>wrapper(*args, **kwargs)\<close>. \<open>misses\<close> is incremented before \<open>func\<close> is called, so
  it stays incremented when \<open>func\<close> raises; \<^verbatim>\<open>cache.put\<close> is then not reached.
\<close>

definition wrapper ::
  "('t, 'v, 'e, 'r) closure \<Rightarrow> ('t, 'v) pyarg list \<Rightarrow> (string \<times> ('t, 'v) pyarg) list
   \<Rightarrow> ('e raised + 'r pyobj) \<times> ('t, 'v, 'e, 'r) closure" where
  "wrapper w args kwargs =
     (let k = Obj (dict_key (normalize_key args kwargs (w_typed w))) in
      case get (w_cache w) k PyNone of
        (Inl e, c1) \<Rightarrow> (Inl (Builtin e), w\<lparr>w_cache := c1\<rparr>)
      | (Inr cached, c1) \<Rightarrow>
          if cached \<noteq> PyNone
          then (Inr cached, w\<lparr>w_cache := c1, w_hits := w_hits w + 1\<rparr>)
          else
            (let w1 = w\<lparr>w_cache := c1, w_misses := w_misses w + 1,
                       w_calls := w_calls w @ [(args, kwargs)]\<rparr>
             in case w_func w args kwargs of
                  Inl e \<Rightarrow> (Inl (Raised e), w1)
                | Inr res \<Rightarrow>
                    (case put (w_cache w1) k res of
                       (Inl e, c2) \<Rightarrow> (Inl (Builtin e), w1\<lparr>w_cache := c2\<rparr>)
                     | (Inr r, c2) \<Rightarrow> (Inr res, w1\<lparr>w_cache := c2\<rparr>))))"

text \<open>\<^verbatim>\<open>cache_info()\<close>\<close>

definition cache_info :: "('t, 'v, 'e, 'r) closure \<Rightarrow> CacheInfo" where
  "cache_info w =
     \<lparr>hits = w_hits w, misses = w_misses w, max_size = w_max_size w, currsize = len (w_cache w)\<rparr>"

text \<open>
  A sequence of calls of one wrapper; a caller that catches an exception goes on with
  the state the failed call left.
\<close>

fun call_all ::
  "('t, 'v, 'e, 'r) closure \<Rightarrow> (('t, 'v) pyarg list \<times> (string \<times> ('t, 'v) pyarg) list) list
   \<Rightarrow> ('t, 'v, 'e, 'r) closure" where
  "call_all w [] = w"
| "call_all w ((args, kwargs) # cs) = call_all (snd (wrapper w args kwargs)) cs"

section \<open>Well-formed cache states\<close>

text \<open>
  \<open>links h L\<close>: in the store \<open>h\<close>, each node of \<open>L\<close> has the following one as \<open>next\<close> and
  is the \<open>prev\<close> of the following one.
\<close>

fun links :: "('k, 'v) Node list \<Rightarrow> addr list \<Rightarrow> bool" where
  "links h (a # b # r) \<longleftrightarrow> next (h ! a) = Some b \<and> prev (h ! b) = Some a \<and> links h (b # r)"
| "links h [a] \<longleftrightarrow> True"
| "links h [] \<longleftrightarrow> True"

definition list_inv :: "('k, 'v) LRUCache \<Rightarrow> addr list \<Rightarrow> bool" where
  "list_inv c xs \<longleftrightarrow>
     distinct (tail c # xs @ [head c]) \<and>
     list_all (\<lambda>a. a < length (heap c)) (tail c # xs @ [head c]) \<and>
     links (heap c) (tail c # xs @ [head c])"

definition index_inv :: "('k, 'v) LRUCache \<Rightarrow> addr list \<Rightarrow> bool" where
  "index_inv c xs \<longleftrightarrow>
     distinct (map fst (data c)) \<and>
     set (data c) = (\<lambda>a. (key (heap c ! a), a)) ` set xs"

text \<open>
  The cache is well formed for the list \<open>xs\<close> of live nodes (least recently used first)
  when \<open>tail\<close>, \<open>xs\<close>, \<open>head\<close> are distinct allocated nodes linked in this order, and the
  index holds exactly the pairs of a live node's key and the node, each key once.
\<close>

definition cache_inv :: "('k, 'v) LRUCache \<Rightarrow> addr list \<Rightarrow> bool" where
  "cache_inv c xs \<longleftrightarrow> list_inv c xs \<and> index_inv c xs"

text \<open>The times of last access of the keys of the nodes \<open>xs\<close>, in the order of \<open>xs\<close>.\<close>

definition stamps :: "'k pyobj option list \<Rightarrow> ('k, 'v) LRUCache \<Rightarrow> addr list \<Rightarrow> nat list" where
  "stamps log c xs = map (\<lambda>a. last_access log (key (heap c ! a))) xs"

text \<open>
  The states of a wrapper that calls can reach: the cache is well formed, its capacity is
  the positive \<open>max_size\<close> and bounds the number of live nodes, and every stored value is
  what \<open>func\<close> returned in an earlier invocation whose arguments have the node's key.
\<close>

definition wrapper_inv :: "('t, 'v, 'e, 'r) closure \<Rightarrow> addr list \<Rightarrow> bool" where
  "wrapper_inv w xs \<longleftrightarrow>
     cache_inv (w_cache w) xs \<and> capacity (w_cache w) = w_max_size w \<and> 0 < w_max_size w \<and>
     int (length xs) \<le> w_max_size w \<and>
     (\<forall>a\<in>set xs. \<exists>(args, kwargs)\<in>set (w_calls w).
        key (heap (w_cache w) ! a) = Obj (dict_key (normalize_key args kwargs (w_typed w))) \<and>
        w_func w args kwargs = Inr (val (heap (w_cache w) ! a)))"

section \<open>Functions to wrap, for the examples\<close>

text \<open>\<^verbatim>\<open>def none_fn(*args, **kwargs): return None\<close>\<close>

definition none_fn :: "(string, int) pyarg list \<Rightarrow> (string \<times> (string, int) pyarg) list \<Rightarrow> unit + int pyobj" where
  "none_fn args kwargs = Inr PyNone"


text \<open>\<^verbatim>\<open>def square(x): return x * x\<close>, on numbers whose value is an integer.\<close>

definition square :: "(string, int) pyarg list \<Rightarrow> (string \<times> (string, int) pyarg) list \<Rightarrow> unit + int pyobj" where
  "square args kwargs =
     (case (args, kwargs) of
        ([x], []) \<Rightarrow> Inr (Obj (value_of x * value_of x))
      | _ \<Rightarrow> Inl ())"

text \<open>\<^verbatim>\<open>def fail_fn(*args, **kwargs): raise Exception()\<close>\<close>

definition fail_fn :: "(string, int) pyarg list \<Rightarrow> (string \<times> (string, int) pyarg) list \<Rightarrow> unit + int pyobj" where
  "fail_fn args kwargs = Inl ()"

text \<open>\<^verbatim>\<open>def square_named(*, x): return x * x\<close>\<close>

definition square_named :: "(string, int) pyarg list \<Rightarrow> (string \<times> (string, int) pyarg) list \<Rightarrow> unit + int pyobj" where
  "square_named args kwargs =
     (case (args, kwargs) of
        ([], [(n, x)]) \<Rightarrow> if n = ''x'' then Inr (Obj (value_of x * value_of x)) else Inl ()
      | _ \<Rightarrow> Inl ())"

section \<open>Properties of the store and of the list\<close>


lemma length_set_next [simp]: "length (set_next h a v) = length h"
  by (simp add: set_next_def)

lemma length_set_prev [simp]: "length (set_prev h a v) = length h"
  by (simp add: set_prev_def)

lemma key_set_next [simp]: "key (set_next h a v ! b) = key (h ! b)"
  by (cases "a = b"; cases "a < length h") (simp_all add: set_next_def list_update_beyond)

lemma key_set_prev [simp]: "key (set_prev h a v ! b) = key (h ! b)"
  by (cases "a = b"; cases "a < length h") (simp_all add: set_prev_def list_update_beyond)

lemma val_set_next [simp]: "val (set_next h a v ! b) = val (h ! b)"
  by (cases "a = b"; cases "a < length h") (simp_all add: set_next_def list_update_beyond)

lemma val_set_prev [simp]: "val (set_prev h a v ! b) = val (h ! b)"
  by (cases "a = b"; cases "a < length h") (simp_all add: set_prev_def list_update_beyond)

lemma prev_set_next [simp]: "prev (set_next h a v ! b) = prev (h ! b)"
  by (cases "a = b"; cases "a < length h") (simp_all add: set_next_def list_update_beyond)

lemma next_set_prev [simp]: "next (set_prev h a v ! b) = next (h ! b)"
  by (cases "a = b"; cases "a < length h") (simp_all add: set_prev_def list_update_beyond)

lemma next_set_next:
  "next (set_next h a v ! b) = (if b = a \<and> a < length h then v else next (h ! b))"
  by (cases "a = b"; cases "a < length h") (simp_all add: set_next_def list_update_beyond)

lemma prev_set_prev:
  "prev (set_prev h a v ! b) = (if b = a \<and> a < length h then v else prev (h ! b))"
  by (cases "a = b"; cases "a < length h") (simp_all add: set_prev_def list_update_beyond)

lemma links_set_next: "a \<notin> set (butlast L) \<Longrightarrow> links (set_next h a v) L = links h L"
  by (induction h L rule: links.induct) (auto simp: next_set_next)

lemma links_set_prev: "a \<notin> set (tl L) \<Longrightarrow> links (set_prev h a v) L = links h L"
  by (induction h L rule: links.induct) (auto simp: prev_set_prev)

lemma links_set_next_notin: "a \<notin> set L \<Longrightarrow> links (set_next h a v) L = links h L"
  by (rule links_set_next) (auto dest: in_set_butlastD)

lemma links_set_prev_notin: "a \<notin> set L \<Longrightarrow> links (set_prev h a v) L = links h L"
  by (rule links_set_prev) (cases L; simp)

lemma links_set_next_last:
  "a \<notin> set xs \<Longrightarrow> links (set_next h a v) (xs @ [a]) = links h (xs @ [a])"
  by (rule links_set_next) simp

lemma links_set_prev_first:
  "a \<notin> set xs \<Longrightarrow> links (set_prev h a v) (a # xs) = links h (a # xs)"
  by (rule links_set_prev) simp

lemmas links_frame =
  links_set_next_notin links_set_prev_notin links_set_next_last links_set_prev_first

lemma links_append:
  "links h (xs @ y # ys) \<longleftrightarrow> links h (xs @ [y]) \<and> links h (y # ys)"
proof (induction xs)
  case Nil
  then show ?case by simp
next
  case (Cons a xs)
  then show ?case by (cases xs) auto
qed

lemma links_appendD:
  "links h (xs @ y # ys) \<Longrightarrow> links h (xs @ [y]) \<and> links h (y # ys)"
  using links_append by blast

lemma links_appendI:
  "links h (xs @ [y]) \<Longrightarrow> links h (y # ys) \<Longrightarrow> links h (xs @ y # ys)"
  using links_append by blast

lemma walk_links:
  "links h (p # xs @ [q]) \<Longrightarrow> q \<notin> set xs \<Longrightarrow> length xs < fuel \<Longrightarrow>
   walk h q fuel (next (h ! p)) = Some xs"
proof (induction xs arbitrary: p fuel)
  case Nil
  then show ?case by (cases fuel) simp_all
next
  case (Cons x xs)
  then show ?case by (cases fuel) simp_all
qed

lemma walk_back_links:
  "links h (p # xs @ [q]) \<Longrightarrow> p \<notin> set xs \<Longrightarrow> length xs < fuel \<Longrightarrow>
   walk_back h p fuel (prev (h ! q)) = Some (rev xs)"
proof (induction xs arbitrary: q fuel rule: rev_induct)
  case Nil
  then show ?case by (cases fuel) simp_all
next
  case (snoc x xs)
  from snoc.prems(1) have l: "links h ((p # xs) @ x # [q])" by simp
  have l1: "links h (p # xs @ [x])" and l2: "links h [x, q]"
    using links_appendD [OF l] by simp_all
  from snoc.prems obtain f where f: "fuel = Suc f" by (cases fuel) simp_all
  have "walk_back h p f (prev (h ! x)) = Some (rev xs)"
    using snoc.IH [OF l1] snoc.prems f by simp
  with l2 snoc.prems f show ?case by simp
qed


lemma links_snoc_heap:
  "list_all (\<lambda>a. a < length h) L \<Longrightarrow> links (h @ [x]) L = links h L"
  by (induction h L rule: links.induct) (auto simp: nth_append)

lemma unlink_links:
  assumes l: "links h (A @ p # n # s # B)"
    and d: "distinct (A @ p # n # s # B)"
    and b: "p < length h" "s < length h"
  shows "links (set_prev (set_next h p (Some s)) s (Some p)) (A @ p # s # B)"
proof -
  let ?h1 = "set_next h p (Some s)"
  let ?h2 = "set_prev ?h1 s (Some p)"
  have lA: "links h (A @ [p])" and lB: "links h (s # B)"
    using links_appendD [OF l] by simp_all
  have 1: "links ?h2 (A @ [p])"
    using lA d by (simp add: links_frame)
  have "links ?h2 (s # B)"
    using lB d by (simp add: links_frame)
  moreover have "next (?h2 ! p) = Some s" "prev (?h2 ! s) = Some p"
    using b by (simp_all add: next_set_next prev_set_prev)
  ultimately have 2: "links ?h2 (p # s # B)" by simp
  show ?thesis by (rule links_appendI [OF 1 2])
qed



lemma link_front_links:
  assumes l: "links h (C @ [q, t])"
    and d: "distinct (C @ [q, t])" "n \<notin> set (C @ [q, t])"
    and b: "q < length h" "n < length h" "t < length h"
  shows "links (set_prev (set_next (set_prev (set_next h q (Some n)) n (Some q)) n (Some t)) t (Some n))
           (C @ [q, n, t])"
proof -
  let ?h4 = "set_prev (set_next (set_prev (set_next h q (Some n)) n (Some q)) n (Some t)) t (Some n)"
  have lC: "links h (C @ [q])"
    using links_appendD [OF l] by simp
  have 1: "links ?h4 (C @ [q])"
    using lC d by (simp add: links_frame)
  from d have ne: "n \<noteq> q" "n \<noteq> t" "q \<noteq> t" by auto
  have "next (?h4 ! q) = Some n" using b ne by (simp add: next_set_next)
  moreover have "prev (?h4 ! n) = Some q" using b ne by (simp add: prev_set_prev)
  moreover have "next (?h4 ! n) = Some t" using b ne by (simp add: next_set_next)
  moreover have "prev (?h4 ! t) = Some n" using b ne by (simp add: prev_set_prev)
  ultimately have 2: "links ?h4 [q, n, t]" by simp
  show ?thesis by (rule links_appendI [OF 1 2])
qed

lemma links_prev_last:
  "links h (C @ [q, t]) \<Longrightarrow> prev (h ! t) = Some q"
  using links_appendD [of h C q "[t]"] by simp


lemma remove_frame [simp]:
  "data (remove c n) = data c" "head (remove c n) = head c" "tail (remove c n) = tail c"
  "capacity (remove c n) = capacity c" "length (heap (remove c n)) = length (heap c)"
  "key (heap (remove c n) ! a) = key (heap c ! a)" "val (heap (remove c n) ! a) = val (heap c ! a)"
  by (simp_all add: remove_def Let_def split: option.splits)

lemma move_front_frame [simp]:
  "data (snd (move_front c n)) = data c" "head (snd (move_front c n)) = head c"
  "tail (snd (move_front c n)) = tail c" "capacity (snd (move_front c n)) = capacity c"
  "length (heap (snd (move_front c n))) = length (heap c)"
  "key (heap (snd (move_front c n)) ! a) = key (heap c ! a)"
  "val (heap (snd (move_front c n)) ! a) = val (heap c ! a)"
  by (simp_all add: move_front_def Let_def split: option.splits)

lemma list_invD:
  assumes "list_inv c xs"
  shows "distinct (tail c # xs @ [head c])"
    and "\<And>a. a \<in> set (tail c # xs @ [head c]) \<Longrightarrow> a < length (heap c)"
    and "links (heap c) (tail c # xs @ [head c])"
  using assms by (auto simp: list_inv_def list_all_iff)

lemma list_invI:
  assumes "distinct (tail c # xs @ [head c])"
    and "\<And>a. a \<in> set (tail c # xs @ [head c]) \<Longrightarrow> a < length (heap c)"
    and "links (heap c) (tail c # xs @ [head c])"
  shows "list_inv c xs"
  using assms by (auto simp: list_inv_def list_all_iff)

lemma remove_linked:
  assumes inv: "list_inv c (ys @ n # zs)"
  shows "list_inv (remove c n) (ys @ zs)"
proof -
  let ?h = "heap c"
  obtain A p where A: "tail c # ys = A @ [p]"
    by (metis append_butlast_last_id list.distinct(1))
  obtain s B where B: "zs @ [head c] = s # B"
    by (cases zs) auto
  have L: "tail c # (ys @ n # zs) @ [head c] = A @ p # n # s # B"
    using A B by simp
  have L': "tail c # (ys @ zs) @ [head c] = A @ p # s # B"
    using A B by simp
  note d = list_invD(1) [OF inv, unfolded L]
  note b = list_invD(2) [OF inv, unfolded L]
  note l = list_invD(3) [OF inv, unfolded L]
  have pn: "prev (?h ! n) = Some p" "next (?h ! n) = Some s"
    using links_appendD [OF l] by simp_all
  have hp: "heap (remove c n) = set_prev (set_next ?h p (Some s)) s (Some p)"
    by (simp add: remove_def Let_def pn)
  have bp: "p < length ?h" "s < length ?h"
    using b by simp_all
  show ?thesis
  proof (rule list_invI)
    show "distinct (tail (remove c n) # (ys @ zs) @ [head (remove c n)])"
      using d unfolding remove_frame L' by simp
    show "a < length (heap (remove c n))"
      if "a \<in> set (tail (remove c n) # (ys @ zs) @ [head (remove c n)])" for a
      using that b [of a] unfolding remove_frame L' by auto
    show "links (heap (remove c n)) (tail (remove c n) # (ys @ zs) @ [head (remove c n)])"
      unfolding remove_frame L' hp by (rule unlink_links [OF l d bp])
  qed
qed

lemma move_front_relink:
  assumes inv: "list_inv (remove c n) xs"
    and fresh: "n \<notin> set (tail c # xs @ [head c])"
    and bn: "n < length (heap c)"
  shows "fst (move_front c n) = Inr ()"
    and "list_inv (snd (move_front c n)) (xs @ [n])"
proof -
  let ?c1 = "remove c n"
  let ?h = "heap ?c1"
  obtain C q where C: "tail c # xs = C @ [q]"
    by (metis append_butlast_last_id list.distinct(1))
  have L: "tail c # xs @ [head c] = C @ [q, head c]"
    using C by simp
  note d = list_invD(1) [OF inv, unfolded remove_frame L]
  note b = list_invD(2) [OF inv, unfolded remove_frame L]
  note l = list_invD(3) [OF inv, unfolded remove_frame L]
  have ph: "prev (?h ! head c) = Some q"
    by (rule links_prev_last [OF l])
  let ?h4 = "set_prev (set_next (set_prev (set_next ?h q (Some n)) n (Some q)) n (Some (head c)))
               (head c) (Some n)"
  have mf: "move_front c n = (Inr (), ?c1\<lparr>heap := ?h4\<rparr>)"
    by (simp add: move_front_def Let_def ph)
  show "fst (move_front c n) = Inr ()"
    by (simp add: mf)
  have L2: "tail c # (xs @ [n]) @ [head c] = C @ [q, n, head c]"
    using C by simp
  have fr: "n \<notin> set (C @ [q, head c])"
    using fresh unfolding L .
  have bq: "q < length ?h" "n < length ?h" "head c < length ?h"
    using b bn by simp_all
  show "list_inv (snd (move_front c n)) (xs @ [n])"
  proof (rule list_invI)
    show "distinct (tail (snd (move_front c n)) # (xs @ [n]) @ [head (snd (move_front c n))])"
      using d fr unfolding move_front_frame L2 by auto
    show "a < length (heap (snd (move_front c n)))"
      if "a \<in> set (tail (snd (move_front c n)) # (xs @ [n]) @ [head (snd (move_front c n))])" for a
      using that b [of a] bn unfolding move_front_frame L2 by auto
    show "links (heap (snd (move_front c n)))
            (tail (snd (move_front c n)) # (xs @ [n]) @ [head (snd (move_front c n))])"
      unfolding move_front_frame L2 unfolding mf
      using link_front_links [OF l d fr bq] by simp
  qed
qed

lemma move_front_linked:
  assumes inv: "list_inv c (ys @ n # zs)"
  shows "fst (move_front c n) = Inr ()"
    and "list_inv (snd (move_front c n)) (ys @ zs @ [n])"
proof -
  have 1: "list_inv (remove c n) (ys @ zs)"
    by (rule remove_linked [OF inv])
  have 2: "n \<notin> set (tail c # (ys @ zs) @ [head c])"
    using list_invD(1) [OF inv] by auto
  have 3: "n < length (heap c)"
    using list_invD(2) [OF inv, of n] by simp
  show "fst (move_front c n) = Inr ()"
    by (rule move_front_relink(1) [OF 1 2 3])
  show "list_inv (snd (move_front c n)) (ys @ zs @ [n])"
    using move_front_relink(2) [OF 1 2 3] by simp
qed

lemma remove_fresh:
  "prev (heap c ! n) = None \<Longrightarrow> next (heap c ! n) = None \<Longrightarrow> remove c n = c"
  by (simp add: remove_def)

lemma move_front_fresh:
  assumes inv: "list_inv c xs"
    and fresh: "n \<notin> set (tail c # xs @ [head c])"
    and bn: "n < length (heap c)"
    and nn: "prev (heap c ! n) = None" "next (heap c ! n) = None"
  shows "fst (move_front c n) = Inr ()"
    and "list_inv (snd (move_front c n)) (xs @ [n])"
proof -
  have 1: "list_inv (remove c n) xs"
    using inv nn by (simp add: remove_fresh)
  show "fst (move_front c n) = Inr ()"
    by (rule move_front_relink(1) [OF 1 fresh bn])
  show "list_inv (snd (move_front c n)) (xs @ [n])"
    by (rule move_front_relink(2) [OF 1 fresh bn])
qed

lemma live_nodes_inv:
  assumes inv: "list_inv c xs"
  shows "live_nodes c = Some xs"
proof -
  let ?L = "tail c # xs @ [head c]"
  have "card (set ?L) \<le> card {..<length (heap c)}"
    by (rule card_mono) (use list_invD(2) [OF inv] in auto)
  then have "length ?L \<le> length (heap c)"
    using distinct_card [OF list_invD(1) [OF inv]] by simp
  then have "length xs < length (heap c)" by simp
  moreover have "head c \<notin> set xs"
    using list_invD(1) [OF inv] by auto
  ultimately show ?thesis
    unfolding live_nodes_def
    by (intro walk_links list_invD(3) [OF inv])
qed


lemma cache_inv_new: "cache_inv (new_cache cap) []"
  by (simp add: cache_inv_def list_inv_def index_inv_def new_cache_def)

lemma index_inv_mem:
  assumes "index_inv c xs" "map_of (data c) k = Some n"
  shows "n \<in> set xs" "key (heap c ! n) = k"
proof -
  have "(k, n) \<in> set (data c)" using assms(2) by (rule map_of_SomeD)
  then have "(k, n) \<in> (\<lambda>a. (key (heap c ! a), a)) ` set xs"
    using assms(1) by (simp add: index_inv_def)
  then show "n \<in> set xs" "key (heap c ! n) = k" by auto
qed

lemma index_inv_keys: "index_inv c xs \<Longrightarrow> index_keys c = (\<lambda>a. key (heap c ! a)) ` set xs"
  by (simp add: index_inv_def index_keys_def image_image)

lemma index_inv_inj:
  assumes inv: "index_inv c xs"
    and ab: "a \<in> set xs" "b \<in> set xs" "key (heap c ! a) = key (heap c ! b)"
  shows "a = b"
proof -
  have s: "set (data c) = (\<lambda>a. (key (heap c ! a), a)) ` set xs"
    using inv by (simp add: index_inv_def)
  have 1: "(key (heap c ! a), a) \<in> set (data c)"
    unfolding s using ab(1) by (rule imageI)
  have "(key (heap c ! b), b) \<in> set (data c)"
    unfolding s using ab(2) by (rule imageI)
  then have 2: "(key (heap c ! a), b) \<in> set (data c)"
    using ab(3) by simp
  have "distinct (map fst (data c))"
    using inv by (simp add: index_inv_def)
  then show ?thesis using 1 2 by (rule eq_key_imp_eq_value)
qed

lemma index_inv_length:
  assumes inv: "index_inv c xs" and d: "distinct xs"
  shows "length (data c) = length xs"
proof -
  have dd: "distinct (data c)"
    using inv by (auto simp: index_inv_def distinct_map)
  have "inj_on (\<lambda>a. (key (heap c ! a), a)) (set xs)"
    by (rule inj_onI) simp
  then have "card ((\<lambda>a. (key (heap c ! a), a)) ` set xs) = card (set xs)"
    by (rule card_image)
  then have "card (set (data c)) = card (set xs)"
    using inv by (simp add: index_inv_def)
  then show ?thesis
    using distinct_card [OF dd] distinct_card [OF d] by simp
qed

lemma index_inv_cong:
  assumes "index_inv c xs" "data c' = data c" "\<And>a. key (heap c' ! a) = key (heap c ! a)"
    "set xs' = set xs"
  shows "index_inv c' xs'"
  using assms by (simp add: index_inv_def)

lemma list_inv_cong:
  assumes "list_inv c xs" "heap c' = heap c" "head c' = head c" "tail c' = tail c"
  shows "list_inv c' xs"
  using assms by (simp add: list_inv_def)

lemma update_fresh: "k \<notin> fst ` set al \<Longrightarrow> AList.update k v al = al @ [(k, v)]"
  by (induction al) auto

lemma set_delete_distinct:
  "distinct (map fst al) \<Longrightarrow> (k, v) \<in> set al \<Longrightarrow> set (AList.delete k al) = set al - {(k, v)}"
  by (induction al) (auto simp: rev_image_eqI)

text \<open>A hit of \<open>get\<close> or \<open>put\<close>: the node moves to the end of the list.\<close>

lemma touch_inv:
  assumes inv: "cache_inv c (ys @ n # zs)"
  shows "fst (move_front c n) = Inr ()"
    and "cache_inv (snd (move_front c n)) (ys @ zs @ [n])"
proof -
  have li: "list_inv c (ys @ n # zs)" and ii: "index_inv c (ys @ n # zs)"
    using inv by (simp_all add: cache_inv_def)
  show "fst (move_front c n) = Inr ()"
    by (rule move_front_linked(1) [OF li])
  have "index_inv (snd (move_front c n)) (ys @ zs @ [n])"
    by (rule index_inv_cong [OF ii]) auto
  then show "cache_inv (snd (move_front c n)) (ys @ zs @ [n])"
    using move_front_linked(2) [OF li] by (simp add: cache_inv_def)
qed

lemma index_lookup:
  assumes ii: "index_inv c xs" and n: "n \<in> set xs"
  shows "map_of (data c) (key (heap c ! n)) = Some n"
proof -
  have "(key (heap c ! n), n) \<in> set (data c)"
    using ii n by (auto simp: index_inv_def)
  moreover have "distinct (map fst (data c))"
    using ii by (simp add: index_inv_def)
  ultimately show ?thesis by simp
qed

lemma get_hit:
  assumes inv: "cache_inv c (ys @ n # zs)" and k: "key (heap c ! n) = k"
  shows "get c k d = (Inr (val (heap c ! n)), snd (move_front c n))"
proof -
  have m: "map_of (data c) k = Some n"
    using index_lookup [of c "ys @ n # zs" n] inv k by (simp add: cache_inv_def)
  obtain r c1 where mf: "move_front c n = (r, c1)"
    by (cases "move_front c n")
  have r: "r = Inr ()" and c1: "c1 = snd (move_front c n)"
    using touch_inv(1) [OF inv] mf by simp_all
  have "val (heap c1 ! n) = val (heap c ! n)"
    unfolding c1 by simp
  then show ?thesis
    unfolding get_def m by (simp add: mf r)
qed

lemma put_hit:
  assumes inv: "cache_inv c (ys @ n # zs)" and k: "key (heap c ! n) = k"
  shows "put c k v = (Inr (val (heap c ! n)), snd (move_front c n))"
proof -
  have m: "map_of (data c) k = Some n"
    using index_lookup [of c "ys @ n # zs" n] inv k by (simp add: cache_inv_def)
  obtain r c1 where mf: "move_front c n = (r, c1)"
    by (cases "move_front c n")
  have r: "r = Inr ()" and c1: "c1 = snd (move_front c n)"
    using touch_inv(1) [OF inv] mf by simp_all
  have "val (heap c1 ! n) = val (heap c ! n)"
    unfolding c1 by simp
  then show ?thesis
    unfolding put_def m by (simp add: mf r)
qed

lemma get_miss: "k \<notin> index_keys c \<Longrightarrow> get c k d = (Inr d, c)"
  by (auto simp: get_def index_keys_def split: option.splits dest: map_of_SomeD intro: rev_image_eqI)


lemma put_miss:
  assumes inv: "cache_inv c xs" and k: "k \<notin> index_keys c"
  defines "n \<equiv> length (heap c)"
  defines "xs' \<equiv> (if capacity c < int (length xs) + 1 then tl (xs @ [n]) else xs @ [n])"
  shows "\<exists>c'. put c k v = (Inr PyNone, c') \<and> cache_inv c' xs' \<and> capacity c' = capacity c \<and>
           length (heap c') = Suc n \<and> key (heap c' ! n) = k \<and> val (heap c' ! n) = v \<and>
           (\<forall>a<n. key (heap c' ! a) = key (heap c ! a) \<and> val (heap c' ! a) = val (heap c ! a))"
proof -
  have li: "list_inv c xs" and ii: "index_inv c xs"
    using inv by (simp_all add: cache_inv_def)
  have m: "map_of (data c) k = None"
    using k by (simp add: index_keys_def map_of_eq_None_iff)
  define c1 where "c1 = c\<lparr>heap := heap c @ [\<lparr>key = k, val = v, prev = None, next = None\<rparr>],
                          data := AList.update k n (data c)\<rparr>"
  define c2 where "c2 = snd (move_front c1 n)"
  have bound: "a < n" if "a \<in> set (tail c # xs @ [head c])" for a
    using list_invD(2) [OF li that] by (simp add: n_def)
  have k1: "key (heap c1 ! a) = (if a = n then k else key (heap c ! a))"
    and v1: "val (heap c1 ! a) = (if a = n then v else val (heap c ! a))" if "a \<le> n" for a
    using that by (auto simp: c1_def n_def nth_append)
  have li1: "list_inv c1 xs"
  proof (rule list_invI)
    show "distinct (tail c1 # xs @ [head c1])"
      using list_invD(1) [OF li] by (simp add: c1_def)
    show "a < length (heap c1)" if "a \<in> set (tail c1 # xs @ [head c1])" for a
      using bound [of a] that by (simp add: c1_def n_def)
    have "list_all (\<lambda>a. a < length (heap c)) (tail c # xs @ [head c])"
      using li by (simp add: list_inv_def)
    then show "links (heap c1) (tail c1 # xs @ [head c1])"
      using list_invD(3) [OF li] by (simp add: c1_def links_snoc_heap)
  qed
  have fresh: "n \<notin> set (tail c1 # xs @ [head c1])"
    using bound [of n] by (auto simp: c1_def)
  have bn: "n < length (heap c1)"
    by (simp add: c1_def n_def)
  have nn: "prev (heap c1 ! n) = None" "next (heap c1 ! n) = None"
    by (simp_all add: c1_def n_def)
  have mf1: "fst (move_front c1 n) = Inr ()"
    by (rule move_front_fresh(1) [OF li1 fresh bn nn])
  have li2: "list_inv c2 (xs @ [n])"
    unfolding c2_def by (rule move_front_fresh(2) [OF li1 fresh bn nn])
  have d2: "data c2 = data c @ [(k, n)]"
    using k by (simp add: c2_def c1_def index_keys_def update_fresh)
  have k2: "key (heap c2 ! a) = (if a = n then k else key (heap c ! a))"
    and v2: "val (heap c2 ! a) = (if a = n then v else val (heap c ! a))" if "a \<le> n" for a
    using k1 [OF that] v1 [OF that] by (simp_all add: c2_def)
  have ii2: "index_inv c2 (xs @ [n])"
  proof -
    have "distinct (map fst (data c2))"
      using ii k by (simp add: d2 index_inv_def index_keys_def)
    moreover have "(\<lambda>a. (key (heap c2 ! a), a)) ` set xs = (\<lambda>a. (key (heap c ! a), a)) ` set xs"
      by (rule image_cong) (use bound k2 in force)+
    then have "set (data c2) = (\<lambda>a. (key (heap c2 ! a), a)) ` set (xs @ [n])"
      using ii by (simp add: d2 index_inv_def k2)
    ultimately show ?thesis by (simp add: index_inv_def)
  qed
  have inv2: "cache_inv c2 (xs @ [n])"
    using li2 ii2 by (simp add: cache_inv_def)
  have len2: "len c2 = int (length xs) + 1"
    using index_inv_length [OF ii] list_invD(1) [OF li] by (simp add: len_def d2)
  have cap2: "capacity c2 = capacity c" and h2: "length (heap c2) = Suc n"
    by (simp_all add: c2_def c1_def n_def)
  obtain r where mf: "move_front c1 n = (r, c2)"
    by (cases "move_front c1 n") (simp add: c2_def)
  have r: "r = Inr ()"
    using mf1 mf by simp
  have put_eq: "put c k v =
      (if len c2 > capacity c2 then
         (case pop c2 of
            (Inl e, c3) \<Rightarrow> (Inl e, c3)
          | (Inr lru, c3) \<Rightarrow>
              (let lk = key (heap c3 ! lru) in
               if lk \<in> fst ` set (data c3)
               then (Inr PyNone, c3\<lparr>data := AList.delete lk (data c3)\<rparr>)
               else (Inl KeyError, c3)))
       else (Inr PyNone, c2))"
    unfolding put_def m by (simp add: Let_def n_def [symmetric] c1_def [symmetric] mf r)
  show ?thesis
  proof (cases "capacity c < int (length xs) + 1")
    case False
    then have "put c k v = (Inr PyNone, c2)"
      unfolding put_eq by (simp add: len2 cap2)
    moreover have "xs' = xs @ [n]"
      using False by (simp add: xs'_def)
    ultimately show ?thesis
      using inv2 cap2 h2 k2 v2 by simp
  next
    case True
    obtain lru rest where xs: "xs @ [n] = lru # rest"
      by (cases xs) auto
    have xs': "xs' = rest"
      using True xs by (simp add: xs'_def)
    have inv2': "cache_inv c2 ([] @ lru # rest)"
      using inv2 xs by simp
    have tn: "next (heap c2 ! tail c2) = Some lru"
      using list_invD(3) [OF li2] xs by simp
    define c3 where "c3 = remove c2 lru"
    have pop: "pop c2 = (Inr lru, c3)"
      by (simp add: pop_def tn c3_def)
    have li3: "list_inv c3 rest"
      using remove_linked [of c2 "[]" lru rest] li2 xs by (simp add: c3_def)
    have lk_in: "(key (heap c2 ! lru), lru) \<in> set (data c2)"
      using ii2 xs by (auto simp: index_inv_def)
    then have lk_mem: "key (heap c3 ! lru) \<in> fst ` set (data c3)"
      by (auto simp: c3_def intro: rev_image_eqI)
    define c4 where "c4 = c3\<lparr>data := AList.delete (key (heap c3 ! lru)) (data c3)\<rparr>"
    have put4: "put c k v = (Inr PyNone, c4)"
      unfolding put_eq using True lk_mem by (simp add: len2 cap2 pop Let_def c4_def)
    have li4: "list_inv c4 rest"
      by (rule list_inv_cong [OF li3]) (simp_all add: c4_def)
    have dd2: "distinct (map fst (data c2))"
      using ii2 by (simp add: index_inv_def)
    have ii4: "index_inv c4 rest"
    proof -
      have "set (data c4) = set (data c2) - {(key (heap c2 ! lru), lru)}"
        using set_delete_distinct [OF dd2 lk_in] by (simp add: c4_def c3_def)
      also have "set (data c2) = (\<lambda>a. (key (heap c2 ! a), a)) ` set (lru # rest)"
        using ii2 xs by (simp add: index_inv_def)
      also have "\<dots> - {(key (heap c2 ! lru), lru)} = (\<lambda>a. (key (heap c2 ! a), a)) ` set rest"
        using list_invD(1) [OF li2] xs by auto
      finally have "set (data c4) = (\<lambda>a. (key (heap c4 ! a), a)) ` set rest"
        by (simp add: c4_def c3_def)
      moreover have "distinct (map fst (data c4))"
        using dd2 by (simp add: c4_def c3_def distinct_delete)
      ultimately show ?thesis by (simp add: index_inv_def)
    qed
    have "cache_inv c4 rest"
      using li4 ii4 by (simp add: cache_inv_def)
    moreover have "capacity c4 = capacity c" "length (heap c4) = Suc n"
      using cap2 h2 by (simp_all add: c4_def c3_def)
    moreover have "key (heap c4 ! a) = (if a = n then k else key (heap c ! a))"
      "val (heap c4 ! a) = (if a = n then v else val (heap c ! a))" if "a \<le> n" for a
      using k2 [OF that] v2 [OF that] by (simp_all add: c4_def c3_def)
    ultimately show ?thesis
      using put4 xs' by simp
  qed
qed


lemma last_access_le: "last_access log k \<le> length log"
  by (induction log) (auto simp: Let_def)

lemma last_access_snoc:
  "last_access (log @ [e]) k = (if e = Some k then Suc (length log) else last_access log k)"
  by (induction log) (auto simp: Let_def)

lemma run_snoc:
  "run c (ops @ [x]) =
     (case run c ops of
        Inl e \<Rightarrow> Inl e
      | Inr c1 \<Rightarrow> (case step c1 x of (Inl e, c2) \<Rightarrow> Inl e | (Inr r, c2) \<Rightarrow> Inr c2))"
  by (induction ops arbitrary: c) (auto split: prod.splits sum.splits)

lemma access_log_snoc:
  "run c ops = Inr c1 \<Longrightarrow> access_log c (ops @ [x]) = access_log c ops @ [accessed c1 x]"
  by (induction ops arbitrary: c) (auto split: prod.splits sum.splits)

lemma index_keys_mem:
  assumes ii: "index_inv c xs" and k: "k \<in> index_keys c"
  obtains ys n zs where "xs = ys @ n # zs" "key (heap c ! n) = k"
proof -
  from k obtain n where "n \<in> set xs" "key (heap c ! n) = k"
    unfolding index_inv_keys [OF ii] by auto
  then show ?thesis using that by (auto dest: split_list)
qed

lemma touch_stamps:
  assumes inv: "cache_inv c (ys @ n # zs)"
    and st: "sorted_wrt (<) (stamps log c (ys @ n # zs))"
  shows "sorted_wrt (<) (stamps (log @ [Some (key (heap c ! n))]) (snd (move_front c n)) (ys @ zs @ [n]))"
proof -
  have li: "list_inv c (ys @ n # zs)" and ii: "index_inv c (ys @ n # zs)"
    using inv by (simp_all add: cache_inv_def)
  have ne: "key (heap c ! a) \<noteq> key (heap c ! n)" if "a \<in> set (ys @ zs)" for a
  proof
    assume "key (heap c ! a) = key (heap c ! n)"
    then have "a = n"
      using index_inv_inj [OF ii, of a n] that by auto
    then show False
      using list_invD(1) [OF li] that by auto
  qed
  have same: "stamps (log @ [Some (key (heap c ! n))]) (snd (move_front c n)) (ys @ zs) =
      stamps log c (ys @ zs)"
  proof -
    have "last_access (log @ [Some (key (heap c ! n))]) (key (heap (snd (move_front c n)) ! a)) =
        last_access log (key (heap c ! a))" if "a \<in> set (ys @ zs)" for a
      using ne [OF that] ne [OF that, symmetric] by (simp add: last_access_snoc)
    then show ?thesis
      unfolding stamps_def by (intro map_cong refl)
  qed
  have new: "stamps (log @ [Some (key (heap c ! n))]) (snd (move_front c n)) [n] = [Suc (length log)]"
    by (simp add: stamps_def last_access_snoc)
  have "stamps (log @ [Some (key (heap c ! n))]) (snd (move_front c n)) ((ys @ zs) @ [n]) =
      stamps (log @ [Some (key (heap c ! n))]) (snd (move_front c n)) (ys @ zs) @
      stamps (log @ [Some (key (heap c ! n))]) (snd (move_front c n)) [n]"
    unfolding stamps_def by (rule map_append)
  then have eq: "stamps (log @ [Some (key (heap c ! n))]) (snd (move_front c n)) (ys @ zs @ [n]) =
      stamps log c (ys @ zs) @ [Suc (length log)]"
    unfolding same new by simp
  have 1: "sorted_wrt (<) (stamps log c (ys @ zs))"
    using st by (auto simp: stamps_def sorted_wrt_append)
  have 2: "t < Suc (length log)" if "t \<in> set (stamps log c (ys @ zs))" for t
    using that last_access_le [of log] by (auto simp: stamps_def less_Suc_eq_le)
  show ?thesis
    unfolding eq using 1 2 by (simp add: sorted_wrt_append)
qed


lemma sorted_wrt_tl: "sorted_wrt P xs \<Longrightarrow> sorted_wrt P (tl xs)"
  by (cases xs) simp_all

lemma put_miss_stamps:
  assumes inv: "cache_inv c xs" and k: "k \<notin> index_keys c"
    and kv: "key (heap c' ! length (heap c)) = k"
      "\<forall>a<length (heap c). key (heap c' ! a) = key (heap c ! a)"
  shows "stamps (log @ [Some k]) c' (xs @ [length (heap c)]) = stamps log c xs @ [Suc (length log)]"
proof -
  have li: "list_inv c xs" and ii: "index_inv c xs"
    using inv by (simp_all add: cache_inv_def)
  have "last_access (log @ [Some k]) (key (heap c' ! a)) = last_access log (key (heap c ! a))"
    if "a \<in> set xs" for a
  proof -
    have "a < length (heap c)"
      using list_invD(2) [OF li, of a] that by simp
    then have 1: "key (heap c' ! a) = key (heap c ! a)"
      using kv(2) by simp
    have "key (heap c ! a) \<in> index_keys c"
      unfolding index_inv_keys [OF ii] using that by simp
    then have "key (heap c ! a) \<noteq> k" "k \<noteq> key (heap c ! a)"
      using k by auto
    then show ?thesis
      unfolding 1 by (simp add: last_access_snoc)
  qed
  then have "stamps (log @ [Some k]) c' xs = stamps log c xs"
    unfolding stamps_def by (intro map_cong refl)
  moreover have "stamps (log @ [Some k]) c' [length (heap c)] = [Suc (length log)]"
    by (simp add: stamps_def kv(1) last_access_snoc)
  moreover have "stamps (log @ [Some k]) c' (xs @ [length (heap c)]) =
      stamps (log @ [Some k]) c' xs @ stamps (log @ [Some k]) c' [length (heap c)]"
    unfolding stamps_def by (rule map_append)
  ultimately show ?thesis by simp
qed

lemma stamps_bound: "t \<in> set (stamps log c xs) \<Longrightarrow> t < Suc (length log)"
  using last_access_le [of log] by (auto simp: stamps_def less_Suc_eq_le)

lemma step_inv:
  assumes inv: "cache_inv c xs" and st: "sorted_wrt (<) (stamps log c xs)"
  shows "\<exists>r c' xs'. step c x = (Inr r, c') \<and> cache_inv c' xs' \<and>
           sorted_wrt (<) (stamps (log @ [accessed c x]) c' xs') \<and>
           capacity c' = capacity c \<and>
           (int (length xs) \<le> capacity c \<longrightarrow> int (length xs') \<le> capacity c)"
proof -
  have ii: "index_inv c xs"
    using inv by (simp add: cache_inv_def)
  have hit: ?thesis
    if k: "k \<in> index_keys c"
      and g: "\<And>ys n zs. cache_inv c (ys @ n # zs) \<Longrightarrow> key (heap c ! n) = k \<Longrightarrow>
                step c x = (Inr (val (heap c ! n)), snd (move_front c n))"
      and a: "accessed c x = Some k" for k
  proof -
    obtain ys n zs where xs: "xs = ys @ n # zs" and kn: "key (heap c ! n) = k"
      using index_keys_mem [OF ii k] by blast
    have inv': "cache_inv c (ys @ n # zs)"
      using inv xs by simp
    have "step c x = (Inr (val (heap c ! n)), snd (move_front c n))"
      by (rule g [OF inv' kn])
    moreover have "cache_inv (snd (move_front c n)) (ys @ zs @ [n])"
      by (rule touch_inv(2) [OF inv'])
    moreover have "sorted_wrt (<) (stamps (log @ [accessed c x]) (snd (move_front c n)) (ys @ zs @ [n]))"
      using touch_stamps [OF inv', of log] st xs by (simp add: a kn)
    moreover have "length (ys @ zs @ [n]) = length xs"
      by (simp add: xs)
    ultimately show ?thesis
      by (metis move_front_frame(4))
  qed
  show ?thesis
  proof (cases x)
    case (Get k)
    show ?thesis
    proof (cases "k \<in> index_keys c")
      case True
      show ?thesis
        by (rule hit [OF True]) (simp_all add: Get True get_hit)
    next
      case False
      have "step c x = (Inr PyNone, c)"
        by (simp add: Get get_miss [OF False])
      moreover have "stamps (log @ [accessed c x]) c xs = stamps log c xs"
        by (simp add: Get False stamps_def last_access_snoc)
      ultimately show ?thesis
        using inv st by auto
    qed
  next
    case (Put k v)
    show ?thesis
    proof (cases "k \<in> index_keys c")
      case True
      show ?thesis
        by (rule hit [OF True]) (simp_all add: Put put_hit)
    next
      case False
      let ?n = "length (heap c)"
      let ?xs' = "if capacity c < int (length xs) + 1 then tl (xs @ [?n]) else xs @ [?n]"
      obtain c' where p: "put c k v = (Inr PyNone, c')" and inv': "cache_inv c' ?xs'"
        and cap: "capacity c' = capacity c" and kn: "key (heap c' ! ?n) = k"
        and ko: "\<forall>a<?n. key (heap c' ! a) = key (heap c ! a)"
        using put_miss [OF inv False, of v] by auto
      have eq: "stamps (log @ [Some k]) c' (xs @ [?n]) = stamps log c xs @ [Suc (length log)]"
        by (rule put_miss_stamps [OF inv False kn ko])
      have s1: "sorted_wrt (<) (stamps (log @ [Some k]) c' (xs @ [?n]))"
        unfolding eq using st stamps_bound [of _ log c xs] by (simp add: sorted_wrt_append)
      have "stamps (log @ [Some k]) c' (tl (xs @ [?n])) = tl (stamps (log @ [Some k]) c' (xs @ [?n]))"
        unfolding stamps_def by (rule map_tl)
      then have s2: "sorted_wrt (<) (stamps (log @ [Some k]) c' (tl (xs @ [?n])))"
        using sorted_wrt_tl [OF s1] by simp
      have "sorted_wrt (<) (stamps (log @ [accessed c x]) c' ?xs')"
        using s1 s2 by (simp add: Put)
      moreover have "int (length xs) \<le> capacity c \<longrightarrow> int (length ?xs') \<le> capacity c"
        by auto
      moreover have "step c x = (Inr PyNone, c')"
        by (simp add: Put p)
      ultimately show ?thesis
        using inv' cap by blast
    qed
  qed
qed


lemma run_inv:
  "\<exists>c xs. run (new_cache cap) ops = Inr c \<and> cache_inv c xs \<and>
     sorted_wrt (<) (stamps (access_log (new_cache cap) ops) c xs) \<and>
     capacity c = cap \<and> (0 \<le> cap \<longrightarrow> int (length xs) \<le> cap)"
proof (induction ops rule: rev_induct)
  case Nil
  have "cache_inv (new_cache cap) []"
    by (rule cache_inv_new)
  moreover have "capacity (new_cache cap :: ('a, 'b) LRUCache) = cap"
    by (simp add: new_cache_def)
  ultimately show ?case
    by (auto simp: stamps_def)
next
  case (snoc x ops)
  then obtain c xs where r: "run (new_cache cap) ops = Inr c" and inv: "cache_inv c xs"
    and st: "sorted_wrt (<) (stamps (access_log (new_cache cap) ops) c xs)"
    and cap: "capacity c = cap" and le: "0 \<le> cap \<longrightarrow> int (length xs) \<le> cap"
    by blast
  obtain r' c' xs' where s: "step c x = (Inr r', c')" and inv': "cache_inv c' xs'"
    and st': "sorted_wrt (<) (stamps (access_log (new_cache cap) ops @ [accessed c x]) c' xs')"
    and cap': "capacity c' = capacity c"
    and le': "int (length xs) \<le> capacity c \<longrightarrow> int (length xs') \<le> capacity c"
    using step_inv [OF inv st, of x] by blast
  have "run (new_cache cap) (ops @ [x]) = Inr c'"
    by (simp add: run_snoc r s)
  moreover have "access_log (new_cache cap) (ops @ [x]) = access_log (new_cache cap) ops @ [accessed c x]"
    by (rule access_log_snoc [OF r])
  ultimately show ?case
    using inv' st' cap cap' le le' by auto
qed

text \<open>
  C2. A cache built with a positive capacity holds, after every sequence of \<open>put\<close> calls,
  at most \<open>capacity\<close> entries: the run returns, the index has as many entries as there
  are nodes between the sentinels, and that number is at most the capacity.
\<close>

theorem capacity_invariant:
  assumes "0 < cap"
  shows "\<exists>c xs. run (new_cache cap) (map (\<lambda>(k, v). Put k v) kvs) = Inr c \<and>
           live_nodes c = Some xs \<and> len c = int (length xs) \<and> len c \<le> cap"
proof -
  obtain c xs where r: "run (new_cache cap) (map (\<lambda>(k, v). Put k v) kvs) = Inr c"
    and inv: "cache_inv c xs" and le: "0 \<le> cap \<longrightarrow> int (length xs) \<le> cap"
    using run_inv [of cap "map (\<lambda>(k, v). Put k v) kvs"] by blast
  have li: "list_inv c xs" and ii: "index_inv c xs"
    using inv by (simp_all add: cache_inv_def)
  have "live_nodes c = Some xs"
    by (rule live_nodes_inv [OF li])
  moreover have "len c = int (length xs)"
    using index_inv_length [OF ii] list_invD(1) [OF li] by (simp add: len_def)
  ultimately show ?thesis
    using r le assms by auto
qed

theorem capacity_invariant_witness:
  "(0::int) < 2 \<and>
   (\<exists>c xs. run (new_cache 2) (map (\<lambda>(k, v). Put k v)
        [(Obj ''a'', Obj (1::nat)), (Obj ''b'', Obj 2), (Obj ''c'', Obj 3)]) = Inr c \<and>
      live_nodes c = Some xs \<and> len c = int (length xs) \<and> len c \<le> 2)"
  using capacity_invariant [of 2 "[(Obj ''a'', Obj (1::nat)), (Obj ''b'', Obj 2), (Obj ''c'', Obj 3)]"]
  by simp


lemma lru_keys_inv:
  assumes inv: "cache_inv c xs"
  shows "lru_keys c = Some (map (\<lambda>a. key (heap c ! a)) xs)"
    and "entries c = Some (map (\<lambda>a. (key (heap c ! a), val (heap c ! a))) xs)"
    and "distinct (map (\<lambda>a. key (heap c ! a)) xs)"
    and "set (map (\<lambda>a. key (heap c ! a)) xs) = index_keys c"
    and "len c = int (length xs)"
proof -
  have li: "list_inv c xs" and ii: "index_inv c xs"
    using inv by (simp_all add: cache_inv_def)
  show "lru_keys c = Some (map (\<lambda>a. key (heap c ! a)) xs)"
    by (simp add: lru_keys_def live_nodes_inv [OF li])
  show "entries c = Some (map (\<lambda>a. (key (heap c ! a), val (heap c ! a))) xs)"
    by (simp add: entries_def live_nodes_inv [OF li])
  have d: "distinct xs"
    using list_invD(1) [OF li] by simp
  have "inj_on (\<lambda>a. key (heap c ! a)) (set xs)"
    by (rule inj_onI) (rule index_inv_inj [OF ii])
  then show "distinct (map (\<lambda>a. key (heap c ! a)) xs)"
    using d by (simp add: distinct_map)
  show "set (map (\<lambda>a. key (heap c ! a)) xs) = index_keys c"
    by (simp add: index_inv_keys [OF ii])
  show "len c = int (length xs)"
    using index_inv_length [OF ii d] by (simp add: len_def)
qed

text \<open>
  C1. After any run of \<open>get\<close> and \<open>put\<close> operations on a new cache, a \<open>put\<close> of a key that
  is not in the index, when the index is full (one more entry exceeds the capacity),
  returns and removes exactly one key \<open>e\<close> of the entries then present (the old ones and
  the new one) from the index and from the list, and \<open>e\<close> is the least recently accessed
  of them: every key that stays was accessed later than \<open>e\<close>, where the accesses are the
  \<open>put\<close> calls and the \<open>get\<close> calls that found their key.
\<close>

theorem lru_eviction:
  assumes run: "run (new_cache cap) ops = Inr c"
    and new: "k \<notin> index_keys c"
    and over: "cap < len c + 1"
    and put: "put c k v = (r, c')"
  shows "\<exists>e ks. r = Inr PyNone \<and> lru_keys c' = Some ks \<and> distinct ks \<and> set ks = index_keys c' \<and>
           e \<in> insert k (index_keys c) \<and> index_keys c' = insert k (index_keys c) - {e} \<and>
           (\<forall>k'\<in>index_keys c'.
              last_access (access_log (new_cache cap) (ops @ [Put k v])) e
              < last_access (access_log (new_cache cap) (ops @ [Put k v])) k')"
proof -
  let ?old = "access_log (new_cache cap) ops"
  let ?log = "access_log (new_cache cap) (ops @ [Put k v])"
  let ?n = "length (heap c)"
  obtain xs where inv: "cache_inv c xs" and st: "sorted_wrt (<) (stamps ?old c xs)"
    and cap: "capacity c = cap"
    using run_inv [of cap ops] run by auto
  have log: "?log = ?old @ [Some k]"
    using access_log_snoc [OF run, of "Put k v"] by simp
  have len: "len c = int (length xs)"
    by (rule lru_keys_inv(5) [OF inv])
  have full: "capacity c < int (length xs) + 1"
    using over cap len by simp
  obtain c1 where p: "put c k v = (Inr PyNone, c1)" and inv1: "cache_inv c1 (tl (xs @ [?n]))"
    and kn: "key (heap c1 ! ?n) = k" and ko: "\<forall>a<?n. key (heap c1 ! a) = key (heap c ! a)"
    using put_miss [OF inv new, of v] full by auto
  have r: "r = Inr PyNone" and c': "c' = c1"
    using p put by simp_all
  let ?K = "\<lambda>a. key (heap c' ! a)"
  obtain lru rest where xs: "xs @ [?n] = lru # rest"
    by (cases xs) auto
  have inv': "cache_inv c' rest"
    using inv1 xs c' by simp
  have eq: "stamps ?log c' (xs @ [?n]) = stamps ?old c xs @ [Suc (length ?old)]"
    unfolding log c' by (rule put_miss_stamps [OF inv new kn ko])
  have "sorted_wrt (<) (stamps ?log c' (xs @ [?n]))"
    unfolding eq using st stamps_bound [of _ ?old c xs] by (simp add: sorted_wrt_append)
  then have lt: "last_access ?log (?K lru) < last_access ?log (?K a)" if "a \<in> set rest" for a
    using that unfolding xs by (simp add: stamps_def)
  have old: "?K ` set xs = index_keys c"
  proof -
    have "?K a = key (heap c ! a)" if "a \<in> set xs" for a
      using list_invD(2) [of c xs a] inv that ko by (simp add: cache_inv_def c')
    then have "?K ` set xs = (\<lambda>a. key (heap c ! a)) ` set xs"
      by (intro image_cong refl)
    then show ?thesis
      using lru_keys_inv(4) [OF inv] by simp
  qed
  have "?K ` set (xs @ [?n]) = insert k (index_keys c)"
    using old kn by (simp add: c')
  then have all: "insert (?K lru) (?K ` set rest) = insert k (index_keys c)"
    unfolding xs by simp
  have notin: "?K lru \<notin> ?K ` set rest"
    using lt by force
  have keys': "index_keys c' = ?K ` set rest"
    using lru_keys_inv(4) [OF inv'] by simp
  have "?K lru \<in> insert k (index_keys c)"
    using all by blast
  moreover have "index_keys c' = insert k (index_keys c) - {?K lru}"
    unfolding keys' using all notin by blast
  moreover have "\<forall>k'\<in>index_keys c'. last_access ?log (?K lru) < last_access ?log k'"
    unfolding keys' using lt by blast
  moreover have "lru_keys c' = Some (map ?K rest)" "distinct (map ?K rest)"
    "set (map ?K rest) = index_keys c'"
    by (rule lru_keys_inv [OF inv'])+
  ultimately show ?thesis
    using r by blast
qed


lemmas cache_eval =
  new_cache_def put_def get_def move_front_def remove_def pop_def set_next_def set_prev_def
  len_def index_keys_def Let_def

theorem lru_eviction_witness:
  "\<exists>c r c'. run (new_cache 2) [Put (Obj ''a'') (Obj (1::nat)), Put (Obj ''b'') (Obj 2), Get (Obj ''a'')] = Inr c \<and>
     Obj ''c'' \<notin> index_keys c \<and> 2 < len c + 1 \<and>
     put c (Obj ''c'') (Obj 3) = (r, c') \<and>
     (\<exists>e ks. r = Inr PyNone \<and> lru_keys c' = Some ks \<and> distinct ks \<and> set ks = index_keys c' \<and>
        e \<in> insert (Obj ''c'') (index_keys c) \<and>
        index_keys c' = insert (Obj ''c'') (index_keys c) - {e} \<and>
        (\<forall>k'\<in>index_keys c'.
           last_access (access_log (new_cache 2)
             ([Put (Obj ''a'') (Obj (1::nat)), Put (Obj ''b'') (Obj 2), Get (Obj ''a'')] @ [Put (Obj ''c'') (Obj 3)])) e
           < last_access (access_log (new_cache 2)
             ([Put (Obj ''a'') (Obj (1::nat)), Put (Obj ''b'') (Obj 2), Get (Obj ''a'')] @ [Put (Obj ''c'') (Obj 3)])) k'))"
proof -
  let ?c = "\<lparr>heap =
     [\<lparr>key = SENTINEL, val = SENTINEL, prev = Some 2, next = None\<rparr>,
      \<lparr>key = SENTINEL, val = SENTINEL, prev = None, next = Some 3\<rparr>,
      \<lparr>key = Obj ''a'', val = Obj (1::nat), prev = Some 3, next = Some 0\<rparr>,
      \<lparr>key = Obj ''b'', val = Obj 2, prev = Some 1, next = Some 2\<rparr>],
     data = [(Obj ''a'', 2), (Obj ''b'', 3)], head = 0, tail = 1, capacity = 2\<rparr>"
  let ?c' = "\<lparr>heap =
     [\<lparr>key = SENTINEL, val = SENTINEL, prev = Some 4, next = None\<rparr>,
      \<lparr>key = SENTINEL, val = SENTINEL, prev = None, next = Some 2\<rparr>,
      \<lparr>key = Obj ''a'', val = Obj (1::nat), prev = Some 1, next = Some 4\<rparr>,
      \<lparr>key = Obj ''b'', val = Obj 2, prev = Some 1, next = Some 2\<rparr>,
      \<lparr>key = Obj ''c'', val = Obj 3, prev = Some 2, next = Some 0\<rparr>],
     data = [(Obj ''a'', 2), (Obj ''c'', 4)], head = 0, tail = 1, capacity = 2\<rparr>"
  have 1: "run (new_cache 2) [Put (Obj ''a'') (Obj (1::nat)), Put (Obj ''b'') (Obj 2), Get (Obj ''a'')] = Inr ?c"
    by (simp add: cache_eval)
  have 2: "Obj ''c'' \<notin> index_keys ?c"
    by (simp add: cache_eval)
  have 3: "2 < len ?c + 1"
    by (simp add: cache_eval)
  have 4: "put ?c (Obj ''c'') (Obj 3) = (Inr PyNone, ?c')"
    by (simp add: cache_eval)
  show ?thesis
    by (rule exI [of _ ?c], rule exI [of _ "Inr PyNone"], rule exI [of _ ?c'], intro conjI)
      (rule 1 2 3 4 lru_eviction [OF 1 2 3 4])+
qed


lemma set_next_id: "(a < length h \<Longrightarrow> next (h ! a) = v) \<Longrightarrow> set_next h a v = h"
  by (cases "a < length h") (auto simp: set_next_def list_update_same_conv list_update_beyond)

lemma set_prev_id: "(a < length h \<Longrightarrow> prev (h ! a) = v) \<Longrightarrow> set_prev h a v = h"
  by (cases "a < length h") (auto simp: set_prev_def list_update_same_conv list_update_beyond)

text \<open>
  C8 (amended). A second call of \<open>_remove\<close> on the same node directly after the first,
  with no other operation on the list in between, changes nothing: in every store, the
  state after the two calls is the state after the first.
\<close>

theorem remove_twice:
  "remove (remove c node) node = remove c node"
proof -
  define h where "h = heap c"
  define p where "p = prev (h ! node)"
  define x where "x = next (h ! node)"
  define h1 where "h1 = (case p of None \<Rightarrow> h | Some pa \<Rightarrow> set_next h pa x)"
  define h2 where "h2 = (case x of None \<Rightarrow> h1 | Some xa \<Rightarrow> set_prev h1 xa p)"
  have r1: "remove c node = c\<lparr>heap := h2\<rparr>"
    unfolding remove_def Let_def h2_def h1_def x_def p_def h_def by (rule refl)
  have len: "length h1 = length h" "length h2 = length h"
    by (simp_all add: h1_def h2_def split: option.splits)
  have n1: "next (h1 ! a) = x" if "p = Some a" "a < length h" for a
    using that by (simp add: h1_def next_set_next)
  have nx: "next (h2 ! node) = x"
    by (cases p; cases x) (simp_all add: h1_def h2_def next_set_next x_def)
  have px: "prev (h2 ! node) = p"
    by (cases p; cases x) (simp_all add: h1_def h2_def prev_set_prev p_def)
  have a: "(case p of None \<Rightarrow> h2 | Some pa \<Rightarrow> set_next h2 pa x) = h2"
  proof (cases p)
    case None
    then show ?thesis by simp
  next
    case (Some pa)
    have "next (h2 ! pa) = x" if "pa < length h2"
      using that n1 [OF Some] len by (cases x) (simp_all add: h2_def)
    then show ?thesis
      by (simp add: Some set_next_id)
  qed
  have b: "(case x of None \<Rightarrow> h2 | Some xa \<Rightarrow> set_prev h2 xa p) = h2"
  proof (cases x)
    case None
    then show ?thesis by simp
  next
    case (Some xa)
    have "prev (h2 ! xa) = p" if "xa < length h2"
      using that len by (simp add: h2_def Some prev_set_prev)
    then show ?thesis
      by (simp add: Some set_prev_id)
  qed
  have "remove (c\<lparr>heap := h2\<rparr>) node = c\<lparr>heap := h2\<rparr>"
    using a b by (cases p; cases x) (simp_all add: remove_def Let_def nx px)
  then show ?thesis
    by (simp add: r1)
qed


text \<open>
  C9. \<open>normalize_key\<close> is a function of its arguments, and two collections of named
  arguments that hold the same (name, value) pairs, in whatever order, give the same key
  for the same positional arguments, in both modes. The names of a \<^verbatim>\<open>dict\<close> are
  distinct.
\<close>

theorem normalize_key_order_independent:
  assumes d1: "distinct (map fst kw1)" and d2: "distinct (map fst kw2)"
    and s: "set kw1 = set kw2"
  shows "normalize_key args kw1 typed = normalize_key args kw2 typed"
proof -
  have e: "kw1 = [] \<longleftrightarrow> kw2 = []"
    using s by (metis set_empty)
  have "inj_on fst (set kw1)"
    using d1 by (simp add: distinct_map)
  then have i: "inj_on fst (set (sort_key fst kw1) \<union> set (sort_key fst kw2))"
    using s by simp
  have d: "distinct (map fst (sort_key fst kw1))" "distinct (map fst (sort_key fst kw2))"
    using d1 d2 by (simp_all add: distinct_map)
  have o: "sorted (map fst (sort_key fst kw1))" "sorted (map fst (sort_key fst kw2))"
    by simp_all
  have "set (sort_key fst kw1) = set (sort_key fst kw2)"
    using s by simp
  with i o(1) d(1) o(2) d(2) have "sort_key fst kw1 = sort_key fst kw2"
    by (rule map_sorted_distinct_set_unique)
  then show ?thesis
    using e by (simp add: normalize_key_def)
qed

theorem normalize_key_order_independent_witness:
  "distinct (map fst [(''a'', PyArg ''int'' (1::int)), (''b'', PyArg ''int'' 2)]) \<and>
   distinct (map fst [(''b'', PyArg ''int'' (2::int)), (''a'', PyArg ''int'' 1)]) \<and>
   set [(''a'', PyArg ''int'' (1::int)), (''b'', PyArg ''int'' 2)] =
     set [(''b'', PyArg ''int'' 2), (''a'', PyArg ''int'' 1)] \<and>
   normalize_key [PyArg ''int'' 1, PyArg ''int'' 2]
       [(''a'', PyArg ''int'' (1::int)), (''b'', PyArg ''int'' 2)] True =
     normalize_key [PyArg ''int'' 1, PyArg ''int'' 2]
       [(''b'', PyArg ''int'' 2), (''a'', PyArg ''int'' 1)] True"
proof -
  have 1: "distinct (map fst [(''a'', PyArg ''int'' (1::int)), (''b'', PyArg ''int'' 2)])"
    by simp
  have 2: "distinct (map fst [(''b'', PyArg ''int'' (2::int)), (''a'', PyArg ''int'' 1)])"
    by simp
  have 3: "set [(''a'', PyArg ''int'' (1::int)), (''b'', PyArg ''int'' 2)] =
     set [(''b'', PyArg ''int'' 2), (''a'', PyArg ''int'' 1)]"
    by auto
  show ?thesis
    using normalize_key_order_independent [OF 1 2 3, of "[PyArg ''int'' 1, PyArg ''int'' 2]" True] 1 2 3
    by blast
qed


text \<open>
  C8, as stated, fails. With capacity 2, after \<open>put a\<close>, \<open>put b\<close>, \<open>put c\<close> (which unlinks
  the node of \<open>a\<close>, at address 2, and leaves its \<open>prev\<close> and \<open>next\<close> as they were) and
  \<open>get b\<close>, the list holds \<open>c\<close> then \<open>b\<close>. A second \<open>_remove\<close> of node 2 links \<open>tail\<close> to
  the node of \<open>b\<close>: the node of \<open>c\<close> is no longer in the list, in either direction, though
  \<open>c\<close> is still in the index.
\<close>

theorem remove_unlinked_counterexample:
  "run (new_cache 2)
     [Put (Obj ''a'') (Obj (1::nat)), Put (Obj ''b'') (Obj 2), Put (Obj ''c'') (Obj 3), Get (Obj ''b'')]
   = Inr \<lparr>heap =
       [\<lparr>key = SENTINEL, val = SENTINEL, prev = Some 3, next = None\<rparr>,
        \<lparr>key = SENTINEL, val = SENTINEL, prev = None, next = Some 4\<rparr>,
        \<lparr>key = Obj ''a'', val = Obj 1, prev = Some 1, next = Some 3\<rparr>,
        \<lparr>key = Obj ''b'', val = Obj 2, prev = Some 4, next = Some 0\<rparr>,
        \<lparr>key = Obj ''c'', val = Obj 3, prev = Some 1, next = Some 3\<rparr>],
       data = [(Obj ''b'', 3), (Obj ''c'', 4)], head = 0, tail = 1, capacity = 2\<rparr> \<and>
   lru_keys \<lparr>heap =
       [\<lparr>key = SENTINEL, val = SENTINEL, prev = Some 3, next = None\<rparr>,
        \<lparr>key = SENTINEL, val = SENTINEL, prev = None, next = Some 4\<rparr>,
        \<lparr>key = Obj ''a'', val = Obj (1::nat), prev = Some 1, next = Some 3\<rparr>,
        \<lparr>key = Obj ''b'', val = Obj 2, prev = Some 4, next = Some 0\<rparr>,
        \<lparr>key = Obj ''c'', val = Obj 3, prev = Some 1, next = Some 3\<rparr>],
       data = [(Obj ''b'', 3), (Obj ''c'', 4)], head = 0, tail = 1, capacity = 2\<rparr>
     = Some [Obj ''c'', Obj ''b''] \<and>
   lru_keys (remove \<lparr>heap =
       [\<lparr>key = SENTINEL, val = SENTINEL, prev = Some 3, next = None\<rparr>,
        \<lparr>key = SENTINEL, val = SENTINEL, prev = None, next = Some 4\<rparr>,
        \<lparr>key = Obj ''a'', val = Obj (1::nat), prev = Some 1, next = Some 3\<rparr>,
        \<lparr>key = Obj ''b'', val = Obj 2, prev = Some 4, next = Some 0\<rparr>,
        \<lparr>key = Obj ''c'', val = Obj 3, prev = Some 1, next = Some 3\<rparr>],
       data = [(Obj ''b'', 3), (Obj ''c'', 4)], head = 0, tail = 1, capacity = 2\<rparr> 2)
     = Some [Obj ''b''] \<and>
   live_nodes_back (remove \<lparr>heap =
       [\<lparr>key = SENTINEL, val = SENTINEL, prev = Some 3, next = None\<rparr>,
        \<lparr>key = SENTINEL, val = SENTINEL, prev = None, next = Some 4\<rparr>,
        \<lparr>key = Obj ''a'', val = Obj (1::nat), prev = Some 1, next = Some 3\<rparr>,
        \<lparr>key = Obj ''b'', val = Obj 2, prev = Some 4, next = Some 0\<rparr>,
        \<lparr>key = Obj ''c'', val = Obj 3, prev = Some 1, next = Some 3\<rparr>],
       data = [(Obj ''b'', 3), (Obj ''c'', 4)], head = 0, tail = 1, capacity = 2\<rparr> 2)
     = Some [3]"
  by (simp add: cache_eval lru_keys_def live_nodes_def live_nodes_back_def)

text \<open>
  C4, as stated, fails: \<open>put\<close> on a key that is present returns the stored value and
  does not store the new one. After \<open>put a 1\<close> and \<open>put a 2\<close> the entry of \<open>a\<close> still holds
  1, and \<open>get a\<close> returns 1.
\<close>

theorem put_existing_counterexample:
  "run (new_cache 2) [Put (Obj ''a'') (Obj (1::nat)), Put (Obj ''a'') (Obj 2)]
   = Inr \<lparr>heap =
       [\<lparr>key = SENTINEL, val = SENTINEL, prev = Some 2, next = None\<rparr>,
        \<lparr>key = SENTINEL, val = SENTINEL, prev = None, next = Some 2\<rparr>,
        \<lparr>key = Obj ''a'', val = Obj 1, prev = Some 1, next = Some 0\<rparr>],
       data = [(Obj ''a'', 2)], head = 0, tail = 1, capacity = 2\<rparr> \<and>
   fst (get \<lparr>heap =
       [\<lparr>key = SENTINEL, val = SENTINEL, prev = Some 2, next = None\<rparr>,
        \<lparr>key = SENTINEL, val = SENTINEL, prev = None, next = Some 2\<rparr>,
        \<lparr>key = Obj ''a'', val = Obj (1::nat), prev = Some 1, next = Some 0\<rparr>],
       data = [(Obj ''a'', 2)], head = 0, tail = 1, capacity = 2\<rparr> (Obj ''a'') PyNone)
     = Inr (Obj 1) \<and>
   Obj (1::nat) \<noteq> Obj 2"
  by (simp add: cache_eval)

text \<open>
  C4 (amended). In every state that a run of \<open>get\<close> and \<open>put\<close> operations on a new cache
  reaches, \<open>put k v2\<close> on a key \<open>k\<close> that is present with the value \<open>v1\<close> returns \<open>v1\<close>, moves
  the entry of \<open>k\<close> to the most recently used position, keeps \<open>v1\<close> as its value and
  leaves the other entries in their order; a \<open>get k\<close> that follows returns \<open>v1\<close>.
\<close>

theorem put_existing_keeps_value:
  assumes run: "run (new_cache cap) ops = Inr c"
    and es: "entries c = Some es"
    and kv: "(k, v1) \<in> set es"
  shows "\<exists>c'. put c k v2 = (Inr v1, c') \<and>
           entries c' = Some (filter (\<lambda>e. fst e \<noteq> k) es @ [(k, v1)]) \<and>
           fst (get c' k PyNone) = Inr v1"
proof -
  obtain xs where inv: "cache_inv c xs"
    using run_inv [of cap ops] run by auto
  let ?f = "\<lambda>a. (key (heap c ! a), val (heap c ! a))"
  have ii: "index_inv c xs"
    using inv by (simp add: cache_inv_def)
  have es_eq: "es = map ?f xs"
    using lru_keys_inv(2) [OF inv] es by simp
  then obtain n where n: "n \<in> set xs" and kn: "key (heap c ! n) = k" and vn: "val (heap c ! n) = v1"
    using kv by auto
  obtain ys zs where xs: "xs = ys @ n # zs"
    using n by (auto dest: split_list)
  have inv0: "cache_inv c (ys @ n # zs)"
    using inv xs by simp
  let ?c' = "snd (move_front c n)"
  have p: "put c k v2 = (Inr v1, ?c')"
    using put_hit [OF inv0 kn, of v2] vn by simp
  have inv': "cache_inv ?c' (ys @ zs @ [n])"
    by (rule touch_inv(2) [OF inv0])
  have ne: "fst (?f a) \<noteq> k" if "a \<in> set (ys @ zs)" for a
  proof
    assume "fst (?f a) = k"
    then have "a = n"
      using index_inv_inj [OF ii, of a n] that kn xs by auto
    then show False
      using list_invD(1) [of c xs] inv that xs by (auto simp: cache_inv_def)
  qed
  have "\<forall>e\<in>set (map ?f (ys @ zs)). fst e \<noteq> k"
  proof (rule ballI)
    fix e
    assume "e \<in> set (map ?f (ys @ zs))"
    then obtain a where "a \<in> set (ys @ zs)" "e = ?f a"
      by auto
    then show "fst e \<noteq> k"
      using ne [of a] by simp
  qed
  then have "filter (\<lambda>e. fst e \<noteq> k) (map ?f (ys @ zs)) = map ?f (ys @ zs)"
    by (rule filter_True)
  then have fl: "filter (\<lambda>e. fst e \<noteq> k) es = map ?f (ys @ zs)"
    unfolding es_eq xs using kn by simp
  have "entries ?c' = Some (map ?f (ys @ zs @ [n]))"
    using lru_keys_inv(2) [OF inv'] by simp
  then have e': "entries ?c' = Some (filter (\<lambda>e. fst e \<noteq> k) es @ [(k, v1)])"
    unfolding fl using kn vn by simp
  have "cache_inv ?c' ((ys @ zs) @ n # [])"
    using inv' by simp
  then have "get ?c' k PyNone = (Inr (val (heap ?c' ! n)), snd (move_front ?c' n))"
    by (rule get_hit) (simp add: kn)
  then have "fst (get ?c' k PyNone) = Inr v1"
    using vn by simp
  then show ?thesis
    using p e' by blast
qed

theorem put_existing_keeps_value_witness:
  "\<exists>c. run (new_cache 2) [Put (Obj ''a'') (Obj (1::nat)), Put (Obj ''b'') (Obj 2)] = Inr c \<and>
     entries c = Some [(Obj ''a'', Obj 1), (Obj ''b'', Obj 2)] \<and>
     (Obj ''a'', Obj 1) \<in> set [(Obj ''a'', Obj 1), (Obj ''b'', Obj (2::nat))] \<and>
     (\<exists>c'. put c (Obj ''a'') (Obj 7) = (Inr (Obj 1), c') \<and>
        entries c' = Some (filter (\<lambda>e. fst e \<noteq> Obj ''a'') [(Obj ''a'', Obj 1), (Obj ''b'', Obj 2)]
                            @ [(Obj ''a'', Obj 1)]) \<and>
        fst (get c' (Obj ''a'') PyNone) = Inr (Obj 1))"
proof -
  let ?c = "\<lparr>heap =
       [\<lparr>key = SENTINEL, val = SENTINEL, prev = Some 3, next = None\<rparr>,
        \<lparr>key = SENTINEL, val = SENTINEL, prev = None, next = Some 2\<rparr>,
        \<lparr>key = Obj ''a'', val = Obj (1::nat), prev = Some 1, next = Some 3\<rparr>,
        \<lparr>key = Obj ''b'', val = Obj 2, prev = Some 2, next = Some 0\<rparr>],
       data = [(Obj ''a'', 2), (Obj ''b'', 3)], head = 0, tail = 1, capacity = 2\<rparr>"
  have 1: "run (new_cache 2) [Put (Obj ''a'') (Obj (1::nat)), Put (Obj ''b'') (Obj 2)] = Inr ?c"
    by (simp add: cache_eval)
  have 2: "entries ?c = Some [(Obj ''a'', Obj 1), (Obj ''b'', Obj 2)]"
    by (simp add: entries_def live_nodes_def)
  have 3: "(Obj ''a'', Obj 1) \<in> set [(Obj ''a'', Obj 1), (Obj ''b'', Obj (2::nat))]"
    by simp
  show ?thesis
    by (rule exI [of _ ?c], intro conjI) (rule 1 2 3 put_existing_keeps_value [OF 1 2 3])+
qed

text \<open>
  C5, as stated, fails for the cache: \<^verbatim>\<open>LRUCache(0)\<close> and \<^verbatim>\<open>LRUCache(-1)\<close> return a
  cache. \<^verbatim>\<open>__init__\<close> does not look at \<open>capacity\<close>.
\<close>

theorem cache_construction_counterexample:
  "(LRUCache_init 0 :: pyerr + (string, nat) LRUCache) = Inr (new_cache 0) \<and>
   (LRUCache_init (- 1) :: pyerr + (string, nat) LRUCache) = Inr (new_cache (- 1)) \<and>
   len (new_cache 0 :: (string, nat) LRUCache) = 0"
  by (simp add: LRUCache_init_def cache_eval)

text \<open>
  C5 (amended). Building a wrapper with \<open>max_size \<le> 0\<close> fails with the \<^verbatim>\<open>ValueError\<close>
  that \<open>lru_cache_impl\<close> itself raises, before any cache is built; building a cache
  succeeds for every capacity and gives an empty cache; with a positive \<open>max_size\<close> the
  wrapper is built, with an empty cache of that capacity and counters at 0.
\<close>

theorem construction_outcomes:
  "(LRUCache_init cap :: pyerr + ('k, 'v) LRUCache) = Inr (new_cache cap) \<and>
   len (new_cache cap :: ('k, 'v) LRUCache) = 0 \<and>
   entries (new_cache cap :: ('k, 'v) LRUCache) = Some [] \<and>
   capacity (new_cache cap :: ('k, 'v) LRUCache) = cap \<and>
   lru_cache_impl maxsize typed func =
     (if maxsize \<le> 0 then Inl (ValueError ''max_size must be > 0'')
      else Inr \<lparr>w_func = func, w_typed = typed, w_max_size = maxsize,
                w_cache = new_cache maxsize, w_hits = 0, w_misses = 0, w_calls = []\<rparr>)"
  by (simp add: LRUCache_init_def lru_cache_impl_def cache_eval entries_def live_nodes_def)


lemma wrapper_inv_built:
  assumes "lru_cache_impl maxsize typed f = Inr w"
  shows "wrapper_inv w []" "w_func w = f" "w_typed w = typed" "w_max_size w = maxsize"
    "w_hits w = 0" "w_misses w = 0" "w_calls w = []" "0 < maxsize" "w_cache w = new_cache maxsize"
  using assms cache_inv_new [of maxsize]
  by (auto simp: lru_cache_impl_def LRUCache_init_def wrapper_inv_def new_cache_def split: if_splits)

text \<open>The call when the key is not in the index.\<close>

lemma wrapper_absent:
  assumes inv: "cache_inv (w_cache w) xs"
    and k: "Obj (dict_key (normalize_key a kw (w_typed w))) \<notin> index_keys (w_cache w)"
  shows "wrapper w a kw =
    (case w_func w a kw of
       Inl e \<Rightarrow> (Inl (Raised e), w\<lparr>w_misses := w_misses w + 1, w_calls := w_calls w @ [(a, kw)]\<rparr>)
     | Inr res \<Rightarrow>
         (Inr res, w\<lparr>w_cache := snd (put (w_cache w) (Obj (dict_key (normalize_key a kw (w_typed w)))) res),
                     w_misses := w_misses w + 1, w_calls := w_calls w @ [(a, kw)]\<rparr>))"
proof (cases "w_func w a kw")
  case (Inl e)
  then show ?thesis
    by (simp add: wrapper_def Let_def get_miss [OF k])
next
  case (Inr res)
  obtain c' where "put (w_cache w) (Obj (dict_key (normalize_key a kw (w_typed w)))) res = (Inr PyNone, c')"
    using put_miss [OF inv k, of res] by blast
  then show ?thesis
    by (simp add: wrapper_def Let_def get_miss [OF k] Inr)
qed

text \<open>The call when the key is the key of the node \<open>n\<close>.\<close>

lemma wrapper_present:
  assumes inv: "cache_inv (w_cache w) (ys @ n # zs)"
    and k: "key (heap (w_cache w) ! n) = Obj (dict_key (normalize_key a kw (w_typed w)))"
  shows "wrapper w a kw =
    (if val (heap (w_cache w) ! n) \<noteq> PyNone
     then (Inr (val (heap (w_cache w) ! n)),
           w\<lparr>w_cache := snd (move_front (w_cache w) n), w_hits := w_hits w + 1\<rparr>)
     else
       (case w_func w a kw of
          Inl e \<Rightarrow> (Inl (Raised e),
                     w\<lparr>w_cache := snd (move_front (w_cache w) n), w_misses := w_misses w + 1,
                       w_calls := w_calls w @ [(a, kw)]\<rparr>)
        | Inr res \<Rightarrow>
            (Inr res,
             w\<lparr>w_cache := snd (move_front (snd (move_front (w_cache w) n)) n),
               w_misses := w_misses w + 1, w_calls := w_calls w @ [(a, kw)]\<rparr>)))"
proof -
  let ?K = "Obj (dict_key (normalize_key a kw (w_typed w)))"
  let ?c1 = "snd (move_front (w_cache w) n)"
  have g: "get (w_cache w) ?K PyNone = (Inr (val (heap (w_cache w) ! n)), ?c1)"
    by (rule get_hit [OF inv k])
  have inv1: "cache_inv ?c1 ((ys @ zs) @ n # [])"
    using touch_inv(2) [OF inv] by simp
  have p: "put ?c1 ?K res = (Inr (val (heap ?c1 ! n)), snd (move_front ?c1 n))" for res
    by (rule put_hit [OF inv1]) (simp add: k)
  show ?thesis
    by (cases "w_func w a kw") (simp_all add: wrapper_def Let_def g p)
qed


lemma wrapper_frame [simp]:
  "w_func (snd (wrapper w a kw)) = w_func w" "w_typed (snd (wrapper w a kw)) = w_typed w"
  "w_max_size (snd (wrapper w a kw)) = w_max_size w"
  by (simp_all add: wrapper_def Let_def split: prod.splits sum.splits)

lemma wrapper_invD:
  assumes "wrapper_inv w xs"
  shows "cache_inv (w_cache w) xs" "capacity (w_cache w) = w_max_size w" "0 < w_max_size w"
    "int (length xs) \<le> w_max_size w"
    "\<And>n. n \<in> set xs \<Longrightarrow> \<exists>args kwargs. (args, kwargs) \<in> set (w_calls w) \<and>
        key (heap (w_cache w) ! n) = Obj (dict_key (normalize_key args kwargs (w_typed w))) \<and>
        w_func w args kwargs = Inr (val (heap (w_cache w) ! n))"
  using assms unfolding wrapper_inv_def by (simp, simp, simp, simp, fast)

lemma wrapper_invI:
  assumes "cache_inv (w_cache w) xs" "capacity (w_cache w) = w_max_size w" "0 < w_max_size w"
    "int (length xs) \<le> w_max_size w"
    "\<And>n. n \<in> set xs \<Longrightarrow> \<exists>args kwargs. (args, kwargs) \<in> set (w_calls w) \<and>
        key (heap (w_cache w) ! n) = Obj (dict_key (normalize_key args kwargs (w_typed w))) \<and>
        w_func w args kwargs = Inr (val (heap (w_cache w) ! n))"
  shows "wrapper_inv w xs"
  using assms unfolding wrapper_inv_def by fast


lemma wrapper_inv_touch:
  assumes inv: "wrapper_inv w (ys @ n # zs)"
    and c: "w_cache w' = snd (move_front (w_cache w) n)"
    and f: "w_func w' = w_func w" "w_typed w' = w_typed w" "w_max_size w' = w_max_size w"
    and s: "set (w_calls w) \<subseteq> set (w_calls w')"
  shows "wrapper_inv w' (ys @ zs @ [n])"
proof (rule wrapper_invI)
  show "cache_inv (w_cache w') (ys @ zs @ [n])"
    unfolding c by (rule touch_inv(2) [OF wrapper_invD(1) [OF inv]])
  show "capacity (w_cache w') = w_max_size w'"
    using wrapper_invD(2) [OF inv] by (simp add: c f)
  show "0 < w_max_size w'"
    using wrapper_invD(3) [OF inv] by (simp add: f)
  show "int (length (ys @ zs @ [n])) \<le> w_max_size w'"
    using wrapper_invD(4) [OF inv] by (simp add: f)
  show "\<exists>args kwargs. (args, kwargs) \<in> set (w_calls w') \<and>
        key (heap (w_cache w') ! m) = Obj (dict_key (normalize_key args kwargs (w_typed w'))) \<and>
        w_func w' args kwargs = Inr (val (heap (w_cache w') ! m))"
    if "m \<in> set (ys @ zs @ [n])" for m
  proof -
    have "m \<in> set (ys @ n # zs)"
      using that by auto
    then show ?thesis
      using wrapper_invD(5) [OF inv, of m] s unfolding c f by (simp, blast)
  qed
qed

lemma wrapper_inv_calls:
  assumes inv: "wrapper_inv w xs"
    and c: "w_cache w' = w_cache w"
    and f: "w_func w' = w_func w" "w_typed w' = w_typed w" "w_max_size w' = w_max_size w"
    and s: "set (w_calls w) \<subseteq> set (w_calls w')"
  shows "wrapper_inv w' xs"
proof (rule wrapper_invI)
  show "\<exists>args kwargs. (args, kwargs) \<in> set (w_calls w') \<and>
        key (heap (w_cache w') ! m) = Obj (dict_key (normalize_key args kwargs (w_typed w'))) \<and>
        w_func w' args kwargs = Inr (val (heap (w_cache w') ! m))"
    if "m \<in> set xs" for m
    using wrapper_invD(5) [OF inv that] s unfolding c f by blast
qed (use wrapper_invD(1-4) [OF inv] in \<open>simp_all add: c f\<close>)


lemma wrapper_absent_return:
  assumes inv: "wrapper_inv w xs"
    and k: "Obj (dict_key (normalize_key a kw (w_typed w))) \<notin> index_keys (w_cache w)"
    and Inr: "w_func w a kw = Inr res"
  shows "\<exists>c' xs' n. wrapper w a kw =
             (Inr res, w\<lparr>w_cache := c', w_misses := w_misses w + 1, w_calls := w_calls w @ [(a, kw)]\<rparr>) \<and>
           wrapper_inv (snd (wrapper w a kw)) xs' \<and> n \<in> set xs' \<and>
           key (heap c' ! n) = Obj (dict_key (normalize_key a kw (w_typed w))) \<and>
           val (heap c' ! n) = res \<and>
           index_keys c' \<subseteq> insert (Obj (dict_key (normalize_key a kw (w_typed w)))) (index_keys (w_cache w))"
proof -
  let ?c = "w_cache w"
  let ?K = "Obj (dict_key (normalize_key a kw (w_typed w)))"
  note ci = wrapper_invD(1) [OF inv]
  note wa = wrapper_absent [OF ci k]
  let ?n = "length (heap ?c)"
  let ?xs' = "if capacity ?c < int (length xs) + 1 then tl (xs @ [?n]) else xs @ [?n]"
  obtain c' where p: "put ?c ?K res = (Inr PyNone, c')" and inv': "cache_inv c' ?xs'"
    and cap: "capacity c' = capacity ?c" and kn: "key (heap c' ! ?n) = ?K"
    and vn: "val (heap c' ! ?n) = res"
    and ko: "\<forall>a<?n. key (heap c' ! a) = key (heap ?c ! a) \<and> val (heap c' ! a) = val (heap ?c ! a)"
    using put_miss [OF ci k, of res] by auto
  let ?w' = "snd (wrapper w a kw)"
  have wr: "wrapper w a kw =
      (Inr res, w\<lparr>w_cache := c', w_misses := w_misses w + 1, w_calls := w_calls w @ [(a, kw)]\<rparr>)"
    by (simp add: wa Inr p)
  have w': "?w' = w\<lparr>w_cache := c', w_misses := w_misses w + 1, w_calls := w_calls w @ [(a, kw)]\<rparr>"
    by (simp add: wr)
  have sub: "set ?xs' \<subseteq> set (xs @ [?n])"
    by (cases xs) auto
  have len: "int (length ?xs') \<le> w_max_size w"
    using wrapper_invD(2,4) [OF inv] by (cases "capacity ?c < int (length xs) + 1") simp_all
  have old: "m < ?n" if "m \<in> set xs" for m
    using list_invD(2) [of ?c xs m] ci that by (simp add: cache_inv_def)
  have "wrapper_inv ?w' ?xs'"
  proof (rule wrapper_invI)
    show "cache_inv (w_cache ?w') ?xs'"
      unfolding w' using inv' by simp
    show "capacity (w_cache ?w') = w_max_size ?w'"
      unfolding w' using wrapper_invD(2) [OF inv] cap by simp
    show "0 < w_max_size ?w'"
      unfolding w' using wrapper_invD(3) [OF inv] by simp
    show "int (length ?xs') \<le> w_max_size ?w'"
      unfolding w' using len by simp
    show "\<exists>args kwargs. (args, kwargs) \<in> set (w_calls ?w') \<and>
        key (heap (w_cache ?w') ! m) = Obj (dict_key (normalize_key args kwargs (w_typed ?w'))) \<and>
        w_func ?w' args kwargs = Inr (val (heap (w_cache ?w') ! m))"
      if "m \<in> set ?xs'" for m
    proof (cases "m = ?n")
      case True
      have "(a, kw) \<in> set (w_calls ?w')"
        unfolding w' by simp
      moreover have "key (heap (w_cache ?w') ! m) = Obj (dict_key (normalize_key a kw (w_typed ?w')))"
        unfolding w' using kn True by simp
      moreover have "w_func ?w' a kw = Inr (val (heap (w_cache ?w') ! m))"
        unfolding w' using vn True Inr by simp
      ultimately show ?thesis by blast
    next
      case False
      then have m: "m \<in> set xs"
        using that sub by auto
      have kv: "key (heap c' ! m) = key (heap ?c ! m)" "val (heap c' ! m) = val (heap ?c ! m)"
        using ko old [OF m] by simp_all
      obtain args kwargs where "(args, kwargs) \<in> set (w_calls w)"
        "key (heap ?c ! m) = Obj (dict_key (normalize_key args kwargs (w_typed w)))"
        "w_func w args kwargs = Inr (val (heap ?c ! m))"
        using wrapper_invD(5) [OF inv m] by blast
      then have "(args, kwargs) \<in> set (w_calls ?w') \<and>
        key (heap (w_cache ?w') ! m) = Obj (dict_key (normalize_key args kwargs (w_typed ?w'))) \<and>
        w_func ?w' args kwargs = Inr (val (heap (w_cache ?w') ! m))"
        unfolding w' using kv by simp
      then show ?thesis by blast
    qed
  qed
  moreover have "?n \<in> set ?xs'"
  proof (cases "capacity ?c < int (length xs) + 1")
    case True
    then have "xs \<noteq> []"
      using wrapper_invD(2,3) [OF inv] by auto
    then show ?thesis
      using True by (cases xs) simp_all
  next
    case False
    then show ?thesis by simp
  qed
  moreover have "index_keys c' \<subseteq> insert ?K (index_keys ?c)"
  proof -
    have "key (heap c' ! m) \<in> insert ?K (index_keys ?c)" if "m \<in> set ?xs'" for m
    proof (cases "m = ?n")
      case True
      then show ?thesis using kn by simp
    next
      case False
      then have m: "m \<in> set xs"
        using that sub by auto
      have "key (heap c' ! m) = key (heap ?c ! m)"
        using ko old [OF m] by simp
      then show ?thesis
        using lru_keys_inv(4) [OF ci] m by auto
    qed
    then have "(\<lambda>m. key (heap c' ! m)) ` set ?xs' \<subseteq> insert ?K (index_keys ?c)"
      by (rule image_subsetI)
    moreover have "index_keys c' = (\<lambda>m. key (heap c' ! m)) ` set ?xs'"
      using lru_keys_inv(4) [OF inv'] by simp
    ultimately show ?thesis by simp
  qed
  ultimately show ?thesis
    using wr kn vn by blast
qed

lemma wrapper_step_absent:
  assumes inv: "wrapper_inv w xs"
    and k: "Obj (dict_key (normalize_key a kw (w_typed w))) \<notin> index_keys (w_cache w)"
  shows "\<exists>xs'. wrapper_inv (snd (wrapper w a kw)) xs'"
proof (cases "w_func w a kw")
  case (Inl e)
  have w': "snd (wrapper w a kw) = w\<lparr>w_misses := w_misses w + 1, w_calls := w_calls w @ [(a, kw)]\<rparr>"
    by (simp add: wrapper_absent [OF wrapper_invD(1) [OF inv] k] Inl)
  have "wrapper_inv (snd (wrapper w a kw)) xs"
    by (rule wrapper_inv_calls [OF inv]) (auto simp: w')
  then show ?thesis ..
next
  case (Inr res)
  show ?thesis
    using wrapper_absent_return [OF inv k Inr] by blast
qed

lemma wrapper_step_present:
  assumes inv: "wrapper_inv w (ys @ n # zs)"
    and kn: "key (heap (w_cache w) ! n) = Obj (dict_key (normalize_key a kw (w_typed w)))"
  shows "wrapper_inv (snd (wrapper w a kw)) (ys @ zs @ [n])"
proof -
  let ?c = "w_cache w"
  note ci = wrapper_invD(1) [OF inv]
  note wp = wrapper_present [OF ci kn]
  let ?w1 = "w\<lparr>w_cache := snd (move_front ?c n), w_calls := w_calls w @ [(a, kw)]\<rparr>"
  have inv1: "wrapper_inv ?w1 (ys @ zs @ [n])"
    by (rule wrapper_inv_touch [OF inv]) auto
  show ?thesis
  proof (cases "val (heap ?c ! n) \<noteq> PyNone")
    case True
    have w': "snd (wrapper w a kw) = w\<lparr>w_cache := snd (move_front ?c n), w_hits := w_hits w + 1\<rparr>"
      unfolding wp using True by simp
    show ?thesis
      by (rule wrapper_inv_touch [OF inv]) (simp_all add: w')
  next
    case False
    show ?thesis
    proof (cases "w_func w a kw")
      case (Inl e)
      have w': "snd (wrapper w a kw) = w\<lparr>w_cache := snd (move_front ?c n), w_misses := w_misses w + 1,
          w_calls := w_calls w @ [(a, kw)]\<rparr>"
        unfolding wp using False Inl by simp
      show ?thesis
        by (rule wrapper_inv_touch [OF inv]) (auto simp: w')
    next
      case (Inr res)
      have w': "snd (wrapper w a kw) = w\<lparr>w_cache := snd (move_front (snd (move_front ?c n)) n),
          w_misses := w_misses w + 1, w_calls := w_calls w @ [(a, kw)]\<rparr>"
        unfolding wp using False Inr by simp
      have "wrapper_inv ?w1 ((ys @ zs) @ n # [])"
        using inv1 by simp
      then have "wrapper_inv (snd (wrapper w a kw)) ((ys @ zs) @ [] @ [n])"
        by (rule wrapper_inv_touch) (auto simp: w')
      then show ?thesis by simp
    qed
  qed
qed

lemma wrapper_step_inv:
  assumes inv: "wrapper_inv w xs"
  shows "\<exists>xs'. wrapper_inv (snd (wrapper w a kw)) xs'"
proof (cases "Obj (dict_key (normalize_key a kw (w_typed w))) \<in> index_keys (w_cache w)")
  case False
  then show ?thesis
    by (rule wrapper_step_absent [OF inv])
next
  case True
  have ii: "index_inv (w_cache w) xs"
    using wrapper_invD(1) [OF inv] by (simp add: cache_inv_def)
  obtain ys n zs where xs: "xs = ys @ n # zs"
    and kn: "key (heap (w_cache w) ! n) = Obj (dict_key (normalize_key a kw (w_typed w)))"
    using index_keys_mem [OF ii True] by blast
  have inv0: "wrapper_inv w (ys @ n # zs)"
    using inv xs by simp
  have "wrapper_inv (snd (wrapper w a kw)) (ys @ zs @ [n])"
    by (rule wrapper_step_present [OF inv0 kn])
  then show ?thesis ..
qed

lemma call_all_inv:
  assumes "wrapper_inv w xs"
  shows "\<exists>xs'. wrapper_inv (call_all w cs) xs'"
  using assms
proof (induction cs arbitrary: w xs)
  case Nil
  then show ?case by auto
next
  case (Cons c cs)
  obtain a kw where c: "c = (a, kw)" by (cases c)
  obtain xs1 where "wrapper_inv (snd (wrapper w a kw)) xs1"
    using wrapper_step_inv [OF Cons.prems] by blast
  then show ?case
    using Cons.IH by (simp add: c)
qed

lemma call_all_frame [simp]:
  "w_func (call_all w cs) = w_func w" "w_typed (call_all w cs) = w_typed w"
  "w_max_size (call_all w cs) = w_max_size w"
  by (induction cs arbitrary: w, auto)+


lemma call_all_append: "call_all w (cs @ ds) = call_all (call_all w cs) ds"
  by (induction cs arbitrary: w) auto

lemma call_all_built_inv:
  assumes "lru_cache_impl maxsize typed f = Inr w0"
  shows "\<exists>xs. wrapper_inv (call_all w0 cs) xs"
  using call_all_inv [OF wrapper_inv_built(1) [OF assms]] .

lemma wrapper_hit:
  assumes inv: "wrapper_inv w xs" and n: "n \<in> set xs"
    and kn: "key (heap (w_cache w) ! n) = Obj (dict_key (normalize_key a kw (w_typed w)))"
    and vn: "val (heap (w_cache w) ! n) \<noteq> PyNone"
  shows "wrapper w a kw =
      (Inr (val (heap (w_cache w) ! n)),
       w\<lparr>w_cache := snd (move_front (w_cache w) n), w_hits := w_hits w + 1\<rparr>)"
    and "\<exists>xs'. wrapper_inv (snd (wrapper w a kw)) xs' \<and> n \<in> set xs'"
proof -
  obtain ys zs where xs: "xs = ys @ n # zs"
    using n by (auto dest: split_list)
  have inv0: "wrapper_inv w (ys @ n # zs)"
    using inv xs by simp
  show "wrapper w a kw =
      (Inr (val (heap (w_cache w) ! n)),
       w\<lparr>w_cache := snd (move_front (w_cache w) n), w_hits := w_hits w + 1\<rparr>)"
    using wrapper_present [OF wrapper_invD(1) [OF inv0] kn] vn by simp
  have "wrapper_inv (snd (wrapper w a kw)) (ys @ zs @ [n])"
    by (rule wrapper_step_present [OF inv0 kn])
  then show "\<exists>xs'. wrapper_inv (snd (wrapper w a kw)) xs' \<and> n \<in> set xs'"
    by auto
qed

lemma hits_replicate:
  assumes "wrapper_inv w xs" "n \<in> set xs"
    and "key (heap (w_cache w) ! n) = Obj (dict_key (normalize_key a kw (w_typed w)))"
    and "val (heap (w_cache w) ! n) \<noteq> PyNone"
  shows "w_hits (call_all w (replicate m (a, kw))) = w_hits w + int m \<and>
         w_misses (call_all w (replicate m (a, kw))) = w_misses w \<and>
         w_calls (call_all w (replicate m (a, kw))) = w_calls w \<and>
         len (w_cache (call_all w (replicate m (a, kw)))) = len (w_cache w)"
  using assms
proof (induction m arbitrary: w xs)
  case 0
  then show ?case by simp
next
  case (Suc m)
  let ?w1 = "snd (wrapper w a kw)"
  have w1: "?w1 = w\<lparr>w_cache := snd (move_front (w_cache w) n), w_hits := w_hits w + 1\<rparr>"
    using wrapper_hit(1) [OF Suc.prems] by simp
  obtain xs1 where inv1: "wrapper_inv ?w1 xs1" and n1: "n \<in> set xs1"
    using wrapper_hit(2) [OF Suc.prems] by blast
  have k1: "key (heap (w_cache ?w1) ! n) = Obj (dict_key (normalize_key a kw (w_typed ?w1)))"
    using Suc.prems(3) by (simp add: w1)
  have v1: "val (heap (w_cache ?w1) ! n) \<noteq> PyNone"
    using Suc.prems(4) by (simp add: w1)
  have "len (w_cache ?w1) = len (w_cache w)"
    by (simp add: w1 len_def)
  moreover have "w_hits ?w1 = w_hits w + 1" "w_misses ?w1 = w_misses w" "w_calls ?w1 = w_calls w"
    by (simp_all add: w1)
  ultimately show ?case
    using Suc.IH [OF inv1 n1 k1 v1] by simp
qed

text \<open>
  C3 (amended). In any state that calls of a wrapper built by \<open>lru_cache_impl\<close> reach,
  if the key of the arguments is not in the cache and the wrapped function returns for
  them a value other than \<^verbatim>\<open>None\<close>, then \<open>n \<ge> 1\<close> calls in a row with these arguments
  add exactly 1 to \<open>misses\<close> and \<open>n - 1\<close> to \<open>hits\<close> of \<open>cache_info\<close>, and invoke the wrapped
  function exactly once. For a new wrapper the counters are 1 and \<open>n - 1\<close>.
\<close>

theorem repeated_calls_counts:
  assumes built: "lru_cache_impl maxsize typed f = Inr w0"
    and absent: "Obj (dict_key (normalize_key a kw typed)) \<notin> index_keys (w_cache (call_all w0 cs))"
    and ret: "f a kw = Inr v" and some: "v \<noteq> PyNone" and n: "0 < n"
  shows "misses (cache_info (call_all w0 (cs @ replicate n (a, kw)))) =
           misses (cache_info (call_all w0 cs)) + 1 \<and>
         hits (cache_info (call_all w0 (cs @ replicate n (a, kw)))) =
           hits (cache_info (call_all w0 cs)) + (int n - 1) \<and>
         w_calls (call_all w0 (cs @ replicate n (a, kw))) = w_calls (call_all w0 cs) @ [(a, kw)]"
proof -
  let ?w = "call_all w0 cs"
  obtain xs where inv: "wrapper_inv ?w xs"
    using call_all_built_inv [OF built] by blast
  have absent': "Obj (dict_key (normalize_key a kw (w_typed ?w))) \<notin> index_keys (w_cache ?w)"
    using absent by (simp add: wrapper_inv_built(3) [OF built])
  have ret': "w_func ?w a kw = Inr v"
    using ret by (simp add: wrapper_inv_built(2) [OF built])
  obtain m where m: "n = Suc m"
    using n by (cases n) simp_all
  let ?w1 = "snd (wrapper ?w a kw)"
  obtain c' xs' k where
    wr: "wrapper ?w a kw =
      (Inr v, ?w\<lparr>w_cache := c', w_misses := w_misses ?w + 1, w_calls := w_calls ?w @ [(a, kw)]\<rparr>)"
    and inv1: "wrapper_inv ?w1 xs'" and k: "k \<in> set xs'"
    and kk: "key (heap c' ! k) = Obj (dict_key (normalize_key a kw (w_typed ?w)))"
    and vk: "val (heap c' ! k) = v"
    using wrapper_absent_return [OF inv absent' ret'] by blast
  have w1: "?w1 = ?w\<lparr>w_cache := c', w_misses := w_misses ?w + 1, w_calls := w_calls ?w @ [(a, kw)]\<rparr>"
    by (simp add: wr)
  have k1: "key (heap (w_cache ?w1) ! k) = Obj (dict_key (normalize_key a kw (w_typed ?w1)))"
    using kk by (simp add: w1)
  have v1: "val (heap (w_cache ?w1) ! k) \<noteq> PyNone"
    using vk some by (simp add: w1)
  have "call_all w0 (cs @ replicate n (a, kw)) = call_all ?w1 (replicate m (a, kw))"
    by (simp add: call_all_append m)
  moreover have "w_hits ?w1 = w_hits ?w" "w_misses ?w1 = w_misses ?w + 1"
    "w_calls ?w1 = w_calls ?w @ [(a, kw)]"
    by (simp_all add: w1)
  ultimately show ?thesis
    using hits_replicate [OF inv1 k k1 v1, of m] by (simp add: cache_info_def m)
qed

lemmas wrapper_eval =
  lru_cache_impl_def LRUCache_init_def wrapper_def cache_info_def normalize_key_def

theorem repeated_calls_counts_witness:
  "lru_cache_impl 2 False square = Inr \<lparr>w_func = square, w_typed = False, w_max_size = 2,
       w_cache = new_cache 2, w_hits = 0, w_misses = 0, w_calls = []\<rparr> \<and>
   Obj (dict_key (normalize_key [PyArg ''int'' 3] [] False)) \<notin>
     index_keys (w_cache (call_all \<lparr>w_func = square, w_typed = False, w_max_size = 2,
       w_cache = new_cache 2, w_hits = 0, w_misses = 0, w_calls = []\<rparr> [])) \<and>
   square [PyArg ''int'' 3] [] = Inr (Obj 9) \<and> Obj (9::int) \<noteq> PyNone \<and> (0::nat) < 3 \<and>
   misses (cache_info (call_all \<lparr>w_func = square, w_typed = False, w_max_size = 2,
       w_cache = new_cache 2, w_hits = 0, w_misses = 0, w_calls = []\<rparr>
       ([] @ replicate 3 ([PyArg ''int'' 3], [])))) = 1 \<and>
   hits (cache_info (call_all \<lparr>w_func = square, w_typed = False, w_max_size = 2,
       w_cache = new_cache 2, w_hits = 0, w_misses = 0, w_calls = []\<rparr>
       ([] @ replicate 3 ([PyArg ''int'' 3], [])))) = 2 \<and>
   w_calls (call_all \<lparr>w_func = square, w_typed = False, w_max_size = 2,
       w_cache = new_cache 2, w_hits = 0, w_misses = 0, w_calls = []\<rparr>
       ([] @ replicate 3 ([PyArg ''int'' 3], []))) = [([PyArg ''int'' 3], [])]"
proof -
  let ?w0 = "\<lparr>w_func = square, w_typed = False, w_max_size = 2,
       w_cache = new_cache 2, w_hits = 0, w_misses = 0, w_calls = []\<rparr>"
  have 1: "lru_cache_impl 2 False square = Inr ?w0"
    by (simp add: wrapper_eval)
  have 2: "Obj (dict_key (normalize_key [PyArg ''int'' 3] [] False)) \<notin>
     index_keys (w_cache (call_all ?w0 []))"
    by (simp add: index_keys_def new_cache_def)
  have 3: "square [PyArg ''int'' 3] [] = Inr (Obj 9)"
    by (simp add: square_def)
  have 4: "Obj (9::int) \<noteq> PyNone"
    by simp
  have 5: "(0::nat) < 3"
    by simp
  show ?thesis
    using repeated_calls_counts [OF 1 2 3 4 5] 1 2 3 4 5
    by (simp add: cache_info_def)
qed

text \<open>
  C3, as stated, fails for a function that returns \<^verbatim>\<open>None\<close>: two calls of a new wrapper
  of \<open>none_fn\<close> with the same argument record 2 misses and no hit, and invoke \<open>none_fn\<close>
  twice.
\<close>

theorem repeated_calls_counterexample:
  "cache_info (call_all (projr (lru_cache_impl 2 False none_fn))
       [([PyArg ''int'' 1], []), ([PyArg ''int'' 1], [])]) =
     \<lparr>hits = 0, misses = 2, max_size = 2, currsize = 1\<rparr> \<and>
   w_calls (call_all (projr (lru_cache_impl 2 False none_fn))
       [([PyArg ''int'' 1], []), ([PyArg ''int'' 1], [])]) =
     [([PyArg ''int'' 1], []), ([PyArg ''int'' 1], [])]"
  by (simp add: wrapper_eval cache_eval none_fn_def)


text \<open>A call that looks up nothing, or \<^verbatim>\<open>None\<close>, and whose function raises.\<close>

lemma raise_step:
  assumes inv: "wrapper_inv w xs"
    and raises: "w_func w a kw = Inl e"
    and miss: "fst (get (w_cache w) (Obj (dict_key (normalize_key a kw (w_typed w)))) PyNone) = Inr PyNone"
  shows "fst (wrapper w a kw) = Inl (Raised e) \<and>
         data (w_cache (snd (wrapper w a kw))) = data (w_cache w) \<and>
         w_calls (snd (wrapper w a kw)) = w_calls w @ [(a, kw)] \<and>
         w_misses (snd (wrapper w a kw)) = w_misses w + 1 \<and>
         w_hits (snd (wrapper w a kw)) = w_hits w \<and>
         fst (get (w_cache (snd (wrapper w a kw)))
                (Obj (dict_key (normalize_key a kw (w_typed w)))) PyNone) = Inr PyNone \<and>
         (\<exists>xs'. wrapper_inv (snd (wrapper w a kw)) xs')"
proof (cases "Obj (dict_key (normalize_key a kw (w_typed w))) \<in> index_keys (w_cache w)")
  case False
  have wr: "wrapper w a kw =
      (Inl (Raised e), w\<lparr>w_misses := w_misses w + 1, w_calls := w_calls w @ [(a, kw)]\<rparr>)"
    by (simp add: wrapper_absent [OF wrapper_invD(1) [OF inv] False] raises)
  show ?thesis
    using wrapper_step_absent [OF inv False, of ] miss by (simp add: wr)
next
  case True
  let ?c = "w_cache w"
  let ?K = "Obj (dict_key (normalize_key a kw (w_typed w)))"
  have ii: "index_inv ?c xs"
    using wrapper_invD(1) [OF inv] by (simp add: cache_inv_def)
  obtain ys n zs where xs: "xs = ys @ n # zs" and kn: "key (heap ?c ! n) = ?K"
    using index_keys_mem [OF ii True] by blast
  have inv0: "wrapper_inv w (ys @ n # zs)"
    using inv xs by simp
  note ci = wrapper_invD(1) [OF inv0]
  have vn: "val (heap ?c ! n) = PyNone"
    using miss get_hit [OF ci kn, of PyNone] by simp
  let ?c1 = "snd (move_front ?c n)"
  have wr: "wrapper w a kw =
      (Inl (Raised e), w\<lparr>w_cache := ?c1, w_misses := w_misses w + 1, w_calls := w_calls w @ [(a, kw)]\<rparr>)"
    using wrapper_present [OF ci kn] vn raises by simp
  have ci1: "cache_inv ?c1 ((ys @ zs) @ n # [])"
    using touch_inv(2) [OF ci] by simp
  have "get ?c1 ?K PyNone = (Inr (val (heap ?c1 ! n)), snd (move_front ?c1 n))"
    by (rule get_hit [OF ci1]) (simp add: kn)
  then have g1: "fst (get ?c1 ?K PyNone) = Inr PyNone"
    using vn by simp
  have "wrapper_inv (snd (wrapper w a kw)) (ys @ zs @ [n])"
    by (rule wrapper_step_present [OF inv0 kn])
  then have "\<exists>xs'. wrapper_inv (snd (wrapper w a kw)) xs'" ..
  then show ?thesis
    using g1 by (simp add: wr)
qed

text \<open>
  C7. In any state that calls of a wrapper built by \<open>lru_cache_impl\<close> reach, when a call
  misses (the lookup of its key gives nothing, or \<^verbatim>\<open>None\<close>) and the wrapped function
  raises \<open>e\<close>, the call raises \<open>e\<close> itself, the index of the cache is as before (no entry
  is stored), and the same call made again invokes the wrapped function again and
  raises \<open>e\<close> again.
\<close>

theorem failure_not_cached:
  assumes built: "lru_cache_impl maxsize typed f = Inr w0"
    and raises: "f a kw = Inl e"
    and miss: "fst (get (w_cache (call_all w0 cs)) (Obj (dict_key (normalize_key a kw typed))) PyNone)
               = Inr PyNone"
  shows "fst (wrapper (call_all w0 cs) a kw) = Inl (Raised e) \<and>
         data (w_cache (call_all w0 (cs @ [(a, kw)]))) = data (w_cache (call_all w0 cs)) \<and>
         w_calls (call_all w0 (cs @ [(a, kw)])) = w_calls (call_all w0 cs) @ [(a, kw)] \<and>
         fst (wrapper (call_all w0 (cs @ [(a, kw)])) a kw) = Inl (Raised e) \<and>
         w_calls (call_all w0 (cs @ [(a, kw), (a, kw)])) =
           w_calls (call_all w0 cs) @ [(a, kw), (a, kw)]"
proof -
  let ?w = "call_all w0 cs"
  let ?w1 = "snd (wrapper ?w a kw)"
  let ?w2 = "snd (wrapper ?w1 a kw)"
  obtain xs where inv: "wrapper_inv ?w xs"
    using call_all_built_inv [OF built] by blast
  have r: "w_func ?w a kw = Inl e"
    using raises by (simp add: wrapper_inv_built(2) [OF built])
  have m: "fst (get (w_cache ?w) (Obj (dict_key (normalize_key a kw (w_typed ?w)))) PyNone) = Inr PyNone"
    using miss by (simp add: wrapper_inv_built(3) [OF built])
  note s1 = raise_step [OF inv r m]
  obtain xs1 where inv1: "wrapper_inv ?w1 xs1"
    using s1 by blast
  have r1: "w_func ?w1 a kw = Inl e"
    using r by simp
  have m1: "fst (get (w_cache ?w1) (Obj (dict_key (normalize_key a kw (w_typed ?w1)))) PyNone) = Inr PyNone"
    using s1 by simp
  note s2 = raise_step [OF inv1 r1 m1]
  have e1: "call_all w0 (cs @ [(a, kw)]) = ?w1"
    by (simp add: call_all_append)
  have e2: "call_all w0 (cs @ [(a, kw), (a, kw)]) = ?w2"
    by (simp add: call_all_append)
  show ?thesis
    unfolding e1 e2 using s1 s2 by simp
qed

theorem failure_not_cached_witness:
  "lru_cache_impl 2 False fail_fn = Inr \<lparr>w_func = fail_fn, w_typed = False, w_max_size = 2,
       w_cache = new_cache 2, w_hits = 0, w_misses = 0, w_calls = []\<rparr> \<and>
   fail_fn [PyArg ''int'' 1] [] = Inl () \<and>
   fst (get (w_cache (call_all \<lparr>w_func = fail_fn, w_typed = False, w_max_size = 2,
       w_cache = new_cache 2, w_hits = 0, w_misses = 0, w_calls = []\<rparr> []))
     (Obj (dict_key (normalize_key [PyArg ''int'' 1] [] False))) PyNone) = Inr PyNone \<and>
   fst (wrapper (call_all \<lparr>w_func = fail_fn, w_typed = False, w_max_size = 2,
       w_cache = new_cache 2, w_hits = 0, w_misses = 0, w_calls = []\<rparr> []) [PyArg ''int'' 1] [])
     = Inl (Raised ()) \<and>
   data (w_cache (call_all \<lparr>w_func = fail_fn, w_typed = False, w_max_size = 2,
       w_cache = new_cache 2, w_hits = 0, w_misses = 0, w_calls = []\<rparr>
       ([] @ [([PyArg ''int'' 1], [])]))) = [] \<and>
   w_calls (call_all \<lparr>w_func = fail_fn, w_typed = False, w_max_size = 2,
       w_cache = new_cache 2, w_hits = 0, w_misses = 0, w_calls = []\<rparr>
       ([] @ [([PyArg ''int'' 1], []), ([PyArg ''int'' 1], [])]))
     = [([PyArg ''int'' 1], []), ([PyArg ''int'' 1], [])]"
proof -
  let ?w0 = "\<lparr>w_func = fail_fn, w_typed = False, w_max_size = 2,
       w_cache = new_cache 2, w_hits = 0, w_misses = 0, w_calls = []\<rparr>"
  have 1: "lru_cache_impl 2 False fail_fn = Inr ?w0"
    by (simp add: wrapper_eval)
  have 2: "fail_fn [PyArg ''int'' 1] [] = Inl ()"
    by (simp add: fail_fn_def)
  have 3: "fst (get (w_cache (call_all ?w0 []))
     (Obj (dict_key (normalize_key [PyArg ''int'' 1] [] False))) PyNone) = Inr PyNone"
    by (simp add: get_def new_cache_def)
  show ?thesis
    using failure_not_cached [OF 1 2 3] 1 2 3
    by (simp add: new_cache_def)
qed






lemma absent_counts:
  assumes inv: "wrapper_inv w xs"
    and k: "Obj (dict_key (normalize_key a kw (w_typed w))) \<notin> index_keys (w_cache w)"
  shows "w_misses (snd (wrapper w a kw)) = w_misses w + 1" "w_hits (snd (wrapper w a kw)) = w_hits w"
  unfolding wrapper_absent [OF wrapper_invD(1) [OF inv] k]
  by (cases "w_func w a kw"; simp)+

lemma first_call_keys:
  assumes inv: "wrapper_inv w xs" and e: "index_keys (w_cache w) = {}"
  shows "index_keys (w_cache (snd (wrapper w a kw))) \<subseteq> {Obj (dict_key (normalize_key a kw (w_typed w)))}"
proof (cases "w_func w a kw")
  case (Inl x)
  have "Obj (dict_key (normalize_key a kw (w_typed w))) \<notin> index_keys (w_cache w)"
    using e by simp
  from wrapper_absent [OF wrapper_invD(1) [OF inv] this] show ?thesis
    using e by (simp add: Inl)
next
  case (Inr res)
  have "Obj (dict_key (normalize_key a kw (w_typed w))) \<notin> index_keys (w_cache w)"
    using e by simp
  from wrapper_absent_return [OF inv this Inr] show ?thesis
    using e by auto
qed


lemma insort_map_commute:
  assumes "\<And>p. fst (f p) = fst p"
  shows "map f (insort_key fst x ys) = insort_key fst (f x) (map f ys)"
  by (induction ys) (simp_all add: assms)

lemma sort_map_commute:
  assumes "\<And>p. fst (f p) = fst p"
  shows "map f (sort_key fst xs) = sort_key fst (map f xs)"
  by (induction xs) (simp_all add: insort_map_commute [OF assms])

lemma sort_key_fst_unique:
  assumes d1: "distinct (map fst xs)" and d2: "distinct (map fst ys)" and s: "set xs = set ys"
  shows "sort_key fst xs = sort_key fst ys"
proof -
  have "inj_on fst (set xs)"
    using d1 by (simp add: distinct_map)
  then have i: "inj_on fst (set (sort_key fst xs) \<union> set (sort_key fst ys))"
    using s by simp
  have d: "distinct (map fst (sort_key fst xs))" "distinct (map fst (sort_key fst ys))"
    using d1 d2 by (simp_all add: distinct_map)
  have o: "sorted (map fst (sort_key fst xs))" "sorted (map fst (sort_key fst ys))"
    by simp_all
  have "set (sort_key fst xs) = set (sort_key fst ys)"
    using s by simp
  with i o(1) d(1) o(2) d(2) show ?thesis
    by (rule map_sorted_distinct_set_unique)
qed

lemma map_pair_zip:
  "map (\<lambda>(n, x). (n, g x)) l = zip (map fst l) (map (\<lambda>(n, x). g x) l)"
  by (induction l) auto

text \<open>The key in the dict, for both modes.\<close>

lemma dict_key_untyped:
  "dict_key (normalize_key a kw False) =
     Key2 (map value_of a) (sort_key fst (map (\<lambda>(n, x). (n, value_of x)) kw))"
proof -
  have "map (\<lambda>(n, x). (n, value_of x)) (sort_key fst kw) =
      sort_key fst (map (\<lambda>(n, x). (n, value_of x)) kw)"
    by (rule sort_map_commute) auto
  then show ?thesis
    by (simp add: normalize_key_def Let_def)
qed

lemma dict_key_typed:
  "dict_key (normalize_key a kw True) =
     Key4 (map value_of a) (map (\<lambda>(n, x). (n, value_of x)) (sort_key fst kw))
       (map type_of a) (map (\<lambda>(n, x). type_of x) (sort_key fst kw))"
  by (simp add: normalize_key_def Let_def)

lemma untyped_keys_equal:
  assumes da: "distinct (map fst kwa)" and db: "distinct (map fst kwb)"
    and vals: "map value_of a = map value_of b"
    and kvals: "set (map (\<lambda>(n, x). (n, value_of x)) kwa) = set (map (\<lambda>(n, x). (n, value_of x)) kwb)"
  shows "dict_key (normalize_key a kwa False) = dict_key (normalize_key b kwb False)"
proof -
  have f: "map fst (map (\<lambda>(n, x). (n, value_of x)) l) = map fst l" for l :: "(string \<times> ('t, 'v) pyarg) list"
    by (induction l) auto
  have "sort_key fst (map (\<lambda>(n, x). (n, value_of x)) kwa) =
      sort_key fst (map (\<lambda>(n, x). (n, value_of x)) kwb)"
    by (rule sort_key_fst_unique) (simp_all only: f da db kvals)
  then show ?thesis
    by (simp add: dict_key_untyped vals)
qed

lemma typed_keys_differ:
  assumes types: "map type_of a \<noteq> map type_of b \<or>
      set (map (\<lambda>(n, x). (n, type_of x)) kwa) \<noteq> set (map (\<lambda>(n, x). (n, type_of x)) kwb)"
  shows "dict_key (normalize_key a kwa True) \<noteq> dict_key (normalize_key b kwb True)"
proof
  let ?ia = "sort_key fst kwa" and ?ib = "sort_key fst kwb"
  assume "dict_key (normalize_key a kwa True) = dict_key (normalize_key b kwb True)"
  then have ta: "map type_of a = map type_of b"
    and iv: "map (\<lambda>(n, x). (n, value_of x)) ?ia = map (\<lambda>(n, x). (n, value_of x)) ?ib"
    and ti: "map (\<lambda>(n, x). type_of x) ?ia = map (\<lambda>(n, x). type_of x) ?ib"
    unfolding dict_key_typed by simp_all
  have f: "map fst (map (\<lambda>(n, x). (n, value_of x)) l) = map fst l" for l :: "(string \<times> ('a, 'b) pyarg) list"
    by (induction l) auto
  have "map fst ?ia = map fst ?ib"
    using arg_cong [OF iv, of "map fst"] unfolding f .
  then have "map (\<lambda>(n, x). (n, type_of x)) ?ia = map (\<lambda>(n, x). (n, type_of x)) ?ib"
    unfolding map_pair_zip [of type_of] using ti by simp
  then have "set (map (\<lambda>(n, x). (n, type_of x)) ?ia) = set (map (\<lambda>(n, x). (n, type_of x)) ?ib)"
    by simp
  then have "set (map (\<lambda>(n, x). (n, type_of x)) kwa) = set (map (\<lambda>(n, x). (n, type_of x)) kwb)"
    by simp
  then show False
    using types ta by simp
qed


text \<open>
  C10 (amended). Let two calls have arguments that are equal in value: the same
  positional values in order and the same named values (a \<^verbatim>\<open>dict\<close> each, so with
  distinct names), and let them differ in the runtime type of a positional or of a
  named argument. With \<open>typed\<close> their keys differ and a new wrapper records 2 misses
  and no hit. Without \<open>typed\<close> their keys are equal, and a new wrapper records 1 miss
  and 1 hit provided the first call returns a value other than \<^verbatim>\<open>None\<close>.
\<close>

theorem typed_mode_counts:
  assumes bt: "lru_cache_impl maxsize True f = Inr wt"
    and bu: "lru_cache_impl maxsize False f = Inr wu"
    and da: "distinct (map fst kwa)" and db: "distinct (map fst kwb)"
    and vals: "map value_of a = map value_of b"
    and kvals: "set (map (\<lambda>(n, x). (n, value_of x)) kwa) = set (map (\<lambda>(n, x). (n, value_of x)) kwb)"
    and types: "map type_of a \<noteq> map type_of b \<or>
      set (map (\<lambda>(n, x). (n, type_of x)) kwa) \<noteq> set (map (\<lambda>(n, x). (n, type_of x)) kwb)"
  shows "dict_key (normalize_key a kwa True) \<noteq> dict_key (normalize_key b kwb True) \<and>
         misses (cache_info (call_all wt [(a, kwa), (b, kwb)])) = 2 \<and>
         hits (cache_info (call_all wt [(a, kwa), (b, kwb)])) = 0 \<and>
         dict_key (normalize_key a kwa False) = dict_key (normalize_key b kwb False) \<and>
         (\<forall>v. f a kwa = Inr v \<and> v \<noteq> PyNone \<longrightarrow>
            misses (cache_info (call_all wu [(a, kwa), (b, kwb)])) = 1 \<and>
            hits (cache_info (call_all wu [(a, kwa), (b, kwb)])) = 1)"
proof -
  have kd: "dict_key (normalize_key a kwa True) \<noteq> dict_key (normalize_key b kwb True)"
    by (rule typed_keys_differ [OF types])
  have ke: "dict_key (normalize_key a kwa False) = dict_key (normalize_key b kwb False)"
    by (rule untyped_keys_equal [OF da db vals kvals])
  have typed_part: "misses (cache_info (call_all wt [(a, kwa), (b, kwb)])) = 2 \<and>
         hits (cache_info (call_all wt [(a, kwa), (b, kwb)])) = 0"
  proof -
    note b = wrapper_inv_built [OF bt]
    have e: "index_keys (w_cache wt) = {}"
      by (simp add: b(9) index_keys_def new_cache_def)
    have k0: "Obj (dict_key (normalize_key a kwa (w_typed wt))) \<notin> index_keys (w_cache wt)"
      using e by simp
    let ?w1 = "snd (wrapper wt a kwa)"
    obtain xs1 where inv1: "wrapper_inv ?w1 xs1"
      using wrapper_step_inv [OF b(1)] by blast
    have "index_keys (w_cache ?w1) \<subseteq> {Obj (dict_key (normalize_key a kwa (w_typed wt)))}"
      by (rule first_call_keys [OF b(1) e])
    then have k1: "Obj (dict_key (normalize_key b kwb (w_typed ?w1))) \<notin> index_keys (w_cache ?w1)"
      using kd by (auto simp: b(3))
    show ?thesis
      using absent_counts [OF b(1) k0] absent_counts [OF inv1 k1] b(5,6)
      by (simp add: cache_info_def)
  qed
  have untyped_part: "misses (cache_info (call_all wu [(a, kwa), (b, kwb)])) = 1 \<and>
         hits (cache_info (call_all wu [(a, kwa), (b, kwb)])) = 1"
    if ret: "f a kwa = Inr v" and some: "v \<noteq> PyNone" for v
  proof -
    note b = wrapper_inv_built [OF bu]
    have k0: "Obj (dict_key (normalize_key a kwa (w_typed wu))) \<notin> index_keys (w_cache wu)"
      by (simp add: b(9) index_keys_def new_cache_def)
    have r0: "w_func wu a kwa = Inr v"
      using ret by (simp add: b(2))
    let ?w1 = "snd (wrapper wu a kwa)"
    obtain c' xs' k where
      wr: "wrapper wu a kwa =
        (Inr v, wu\<lparr>w_cache := c', w_misses := w_misses wu + 1, w_calls := w_calls wu @ [(a, kwa)]\<rparr>)"
      and inv1: "wrapper_inv ?w1 xs'" and k: "k \<in> set xs'"
      and kk: "key (heap c' ! k) = Obj (dict_key (normalize_key a kwa (w_typed wu)))"
      and vk: "val (heap c' ! k) = v"
      using wrapper_absent_return [OF b(1) k0 r0] by blast
    have w1: "?w1 = wu\<lparr>w_cache := c', w_misses := w_misses wu + 1, w_calls := w_calls wu @ [(a, kwa)]\<rparr>"
      by (simp add: wr)
    have k1: "key (heap (w_cache ?w1) ! k) = Obj (dict_key (normalize_key b kwb (w_typed ?w1)))"
      using kk ke by (simp add: w1 b(3))
    have v1: "val (heap (w_cache ?w1) ! k) \<noteq> PyNone"
      using vk some by (simp add: w1)
    have "wrapper ?w1 b kwb =
        (Inr (val (heap (w_cache ?w1) ! k)),
         ?w1\<lparr>w_cache := snd (move_front (w_cache ?w1) k), w_hits := w_hits ?w1 + 1\<rparr>)"
      by (rule wrapper_hit(1) [OF inv1 k k1 v1])
    then have "w_hits (snd (wrapper ?w1 b kwb)) = w_hits ?w1 + 1"
      "w_misses (snd (wrapper ?w1 b kwb)) = w_misses ?w1"
      by simp_all
    then show ?thesis
      using b(5,6) by (simp add: cache_info_def w1)
  qed
  show ?thesis
    using kd ke typed_part untyped_part by blast
qed

theorem typed_mode_counts_witness:
  "lru_cache_impl 2 True square_named = Inr \<lparr>w_func = square_named, w_typed = True, w_max_size = 2,
       w_cache = new_cache 2, w_hits = 0, w_misses = 0, w_calls = []\<rparr> \<and>
   lru_cache_impl 2 False square_named = Inr \<lparr>w_func = square_named, w_typed = False, w_max_size = 2,
       w_cache = new_cache 2, w_hits = 0, w_misses = 0, w_calls = []\<rparr> \<and>
   distinct (map fst [(''x'', PyArg ''int'' (1::int))]) \<and>
   distinct (map fst [(''x'', PyArg ''float'' (1::int))]) \<and>
   map value_of ([] :: (string, int) pyarg list) = map value_of ([] :: (string, int) pyarg list) \<and>
   set (map (\<lambda>(n, x). (n, value_of x)) [(''x'', PyArg ''int'' (1::int))]) =
     set (map (\<lambda>(n, x). (n, value_of x)) [(''x'', PyArg ''float'' (1::int))]) \<and>
   set (map (\<lambda>(n, x). (n, type_of x)) [(''x'', PyArg ''int'' (1::int))]) \<noteq>
     set (map (\<lambda>(n, x). (n, type_of x)) [(''x'', PyArg ''float'' (1::int))]) \<and>
   square_named [] [(''x'', PyArg ''int'' 1)] = Inr (Obj 1) \<and> Obj (1::int) \<noteq> PyNone \<and>
   dict_key (normalize_key [] [(''x'', PyArg ''int'' (1::int))] True) \<noteq>
     dict_key (normalize_key [] [(''x'', PyArg ''float'' 1)] True) \<and>
   misses (cache_info (call_all \<lparr>w_func = square_named, w_typed = True, w_max_size = 2,
       w_cache = new_cache 2, w_hits = 0, w_misses = 0, w_calls = []\<rparr>
       [([], [(''x'', PyArg ''int'' 1)]), ([], [(''x'', PyArg ''float'' 1)])])) = 2 \<and>
   hits (cache_info (call_all \<lparr>w_func = square_named, w_typed = True, w_max_size = 2,
       w_cache = new_cache 2, w_hits = 0, w_misses = 0, w_calls = []\<rparr>
       [([], [(''x'', PyArg ''int'' 1)]), ([], [(''x'', PyArg ''float'' 1)])])) = 0 \<and>
   misses (cache_info (call_all \<lparr>w_func = square_named, w_typed = False, w_max_size = 2,
       w_cache = new_cache 2, w_hits = 0, w_misses = 0, w_calls = []\<rparr>
       [([], [(''x'', PyArg ''int'' 1)]), ([], [(''x'', PyArg ''float'' 1)])])) = 1 \<and>
   hits (cache_info (call_all \<lparr>w_func = square_named, w_typed = False, w_max_size = 2,
       w_cache = new_cache 2, w_hits = 0, w_misses = 0, w_calls = []\<rparr>
       [([], [(''x'', PyArg ''int'' 1)]), ([], [(''x'', PyArg ''float'' 1)])])) = 1"
proof -
  have 1: "lru_cache_impl 2 True square_named = Inr \<lparr>w_func = square_named, w_typed = True,
       w_max_size = 2, w_cache = new_cache 2, w_hits = 0, w_misses = 0, w_calls = []\<rparr>"
    by (simp add: wrapper_eval)
  have 2: "lru_cache_impl 2 False square_named = Inr \<lparr>w_func = square_named, w_typed = False,
       w_max_size = 2, w_cache = new_cache 2, w_hits = 0, w_misses = 0, w_calls = []\<rparr>"
    by (simp add: wrapper_eval)
  have 3: "distinct (map fst [(''x'', PyArg ''int'' (1::int))])"
    "distinct (map fst [(''x'', PyArg ''float'' (1::int))])"
    by simp_all
  have 4: "map value_of ([] :: (string, int) pyarg list) = map value_of ([] :: (string, int) pyarg list)"
    by simp
  have 5: "set (map (\<lambda>(n, x). (n, value_of x)) [(''x'', PyArg ''int'' (1::int))]) =
     set (map (\<lambda>(n, x). (n, value_of x)) [(''x'', PyArg ''float'' (1::int))])"
    by simp
  have 6: "set (map (\<lambda>(n, x). (n, type_of x)) [(''x'', PyArg ''int'' (1::int))]) \<noteq>
     set (map (\<lambda>(n, x). (n, type_of x)) [(''x'', PyArg ''float'' (1::int))])"
    by simp
  have 7: "square_named [] [(''x'', PyArg ''int'' 1)] = Inr (Obj 1)" "Obj (1::int) \<noteq> PyNone"
    by (simp_all add: square_named_def)
  show ?thesis
    using typed_mode_counts [OF 1 2 3 4 5 disjI2 [OF 6]] 1 2 3 4 5 6 7
    by blast
qed

text \<open>
  C10, as stated, fails without \<open>typed\<close> for a function that returns \<^verbatim>\<open>None\<close>: the calls
  of \<open>none_fn\<close> with the int 1 and the float 1.0 share one key but record 2 misses and no
  hit.
\<close>

theorem typed_mode_counterexample:
  "dict_key (normalize_key [PyArg ''int'' (1::int)] [] False) =
     dict_key (normalize_key [PyArg ''float'' 1] [] False) \<and>
   cache_info (call_all (projr (lru_cache_impl 2 False none_fn))
       [([PyArg ''int'' 1], []), ([PyArg ''float'' 1], [])]) =
     \<lparr>hits = 0, misses = 2, max_size = 2, currsize = 1\<rparr>"
  by (simp add: wrapper_eval cache_eval none_fn_def)

end
